theory Spec2Isabelle
  imports Main "HOL-Library.Multiset" "HOL-Library.Monad_Syntax"
begin

section \<open>The B-tree map of \<open>btree/cpp/btree_map.h\<close>\<close>

subsection \<open>Data model\<close>

text \<open>
  A \<open>Node\<close> of the source holds three fixed arrays: \<open>keys[2B]\<close>, \<open>values[2B]\<close> and
  \<open>children[2B + 1]\<close>, all of owning pointers, a null pointer marking an empty slot.
  Every statement of the source that writes \<open>keys[i]\<close> writes \<open>values[i]\<close> from the
  same place in the same step, so the two arrays are kept here as one array \<open>slots\<close> of
  optional pairs (the \<open>Element\<close> of the source); \<open>None\<close> is the null pointer.
  The template parameter \<open>B\<close> is an argument of the functions that mention it; it
  is at least 1 (for \<open>B = 0\<close> the unsigned \<open>2 * B - 1\<close> of the source wraps around, which the
  model does not follow). A loop of
  the source that runs over a whole array runs here over the list. The comparison
  is \<open>DefaultCompare\<close> on a linear order.
\<close>

datatype ('k, 'v) node =
  Node (slots: "('k \<times> 'v) option list") (children: "('k, 'v) node option list")

definition new_node :: "nat \<Rightarrow> ('k, 'v) node" where
  "new_node B = Node (replicate (2 * B) None) (replicate (2 * B + 1) None)"

definition DefaultCompare :: "'k::linorder \<Rightarrow> 'k \<Rightarrow> int" where
  "DefaultCompare lhs rhs = (if lhs > rhs then 1 else if lhs < rhs then - 1 else 0)"

text \<open>
  Reading an array. The reads of the source stay inside the arrays; the model reads a
  null pointer beyond the end so that every function is total. (The one write that
  can pass the end of an array, in \<open>merge\<close>, is \<open>None\<close> there.)
\<close>

definition at :: "'a option list \<Rightarrow> nat \<Rightarrow> 'a option" where
  "at xs i = (if i < length xs then xs ! i else None)"

subsection \<open>Node primitives\<close>

text \<open>
  \<open>Node::insert\<close>: the first slot that is empty or whose key is not below \<open>k\<close> takes the
  new element, the slots from there on move one place to the right and the last one
  falls off. When every slot holds a smaller key nothing is stored.
\<close>

fun slot_insert :: "'k::linorder \<Rightarrow> 'v \<Rightarrow> ('k \<times> 'v) option list \<Rightarrow> ('k \<times> 'v) option list" where
  "slot_insert k v [] = []"
| "slot_insert k v (None # ss) = Some (k, v) # butlast (None # ss)"
| "slot_insert k v (Some (k', v') # ss) =
     (if DefaultCompare k k' > 0 then Some (k', v') # slot_insert k v ss
      else Some (k, v) # butlast (Some (k', v') # ss))"

definition node_insert :: "'k::linorder \<Rightarrow> 'v \<Rightarrow> ('k, 'v) node \<Rightarrow> ('k, 'v) node" where
  "node_insert k v u = Node (slot_insert k v (slots u)) (children u)"

text \<open>
  The erase path hands \<open>Node::insert\<close> an element it took out of another node, which is
  a pair of null pointers when that slot was empty. The loop then tests
  \<open>keys[0]\<close> first: when it is null the null element is stored at index 0 without being
  read; otherwise \<open>*k\<close> dereferences a null pointer, which is \<open>None\<close> here.
\<close>

definition insert_element :: "('k::linorder \<times> 'v) option \<Rightarrow> ('k, 'v) node \<Rightarrow> ('k, 'v) node option" where
  "insert_element e u =
     (case e of
        Some (k, v) \<Rightarrow> Some (node_insert k v u)
      | None \<Rightarrow>
          (case slots u of
             [] \<Rightarrow> Some u
           | s # ss \<Rightarrow>
               (case s of
                  None \<Rightarrow> Some (Node (None # butlast (s # ss)) (children u))
                | Some _ \<Rightarrow> None)))"

text \<open>\<open>Node::add_child\<close>: the children from \<open>index\<close> on move one place right, the last falls off.\<close>

definition add_child :: "('k, 'v) node option \<Rightarrow> nat \<Rightarrow> ('k, 'v) node \<Rightarrow> ('k, 'v) node" where
  "add_child child index u =
     Node (slots u) (take index (children u) @ child # butlast (drop index (children u)))"

text \<open>
  \<open>Node::remove\<close>: the element at \<open>index\<close> is moved out; the loop then pulls each
  following element one place left for as long as the next slot is not null, and
  the slot it stops at is left null (moved from).
\<close>

fun shift_left :: "'a option list \<Rightarrow> 'a option list" where
  "shift_left [] = []"
| "shift_left [x] = [None]"
| "shift_left (x # None # ys) = None # None # ys"
| "shift_left (x # Some y # ys) = Some y # shift_left (Some y # ys)"

definition node_remove :: "nat \<Rightarrow> ('k, 'v) node \<Rightarrow> ('k \<times> 'v) option \<times> ('k, 'v) node" where
  "node_remove index u =
     (at (slots u) index,
      Node (take index (slots u) @ shift_left (drop index (slots u))) (children u))"

text \<open>
  \<open>Node::split\<close> returns the new node, or null when \<open>keys[2B - 1]\<close> is null. The model
  returns the node as the call leaves it together with the new node.
\<close>

definition node_split :: "nat \<Rightarrow> ('k, 'v) node \<Rightarrow> ('k, 'v) node \<times> ('k, 'v) node option" where
  "node_split B u =
     (if at (slots u) (2 * B - 1) = None then (u, None)
      else (Node (drop B (slots u) @ replicate B None)
                 (drop B (children u) @ replicate B None),
            Some (Node (take B (slots u) @ replicate B None)
                       (take B (children u) @ replicate (B + 1) None))))"

definition is_leaf :: "('k, 'v) node \<Rightarrow> bool" where
  "is_leaf u = (at (children u) 0 = None)"

text \<open>\<open>Node::size\<close> scans from the last slot down for the first key that is not null.\<close>

definition node_size :: "('k, 'v) node \<Rightarrow> nat" where
  "node_size u = length (dropWhile (\<lambda>s. s = None) (rev (slots u)))"

lemma size_child_at [termination_simp]:
  "at cs i = Some c \<Longrightarrow> size c < Suc (n + size_list (size_option size) cs)"
proof -
  assume a: "at cs i = Some c"
  then have "Some c \<in> set cs"
    by (metis at_def nth_mem option.distinct(1))
  then have "size_option size (Some c) \<le> size_list (size_option size) cs"
    by (simp add: size_list_estimation')
  then show ?thesis by simp
qed

lemma size_child_mem:
  "Some c \<in> set cs \<Longrightarrow> size c < Suc (size_list (size_option size) cs)"
proof -
  assume "Some c \<in> set cs"
  then have "size_option size (Some c) \<le> size_list (size_option size) cs"
    by (simp add: size_list_estimation')
  then show ?thesis by simp
qed

text \<open>
  \<open>Node::bfs\<close> appends the node's elements to the layer's bucket of the accumulator and
  visits the children up to the first null one. A node whose first key is null
  is skipped with everything below it.
\<close>

function bfs :: "nat \<Rightarrow> ('k, 'v) node \<Rightarrow> nat \<Rightarrow> ('k \<times> 'v) list list list \<Rightarrow> ('k \<times> 'v) list list list" where
  "bfs B (Node ks cs) layer result =
     (if at ks 0 = None then result
      else
        let node = map the (takeWhile (\<lambda>s. s \<noteq> None) (take (2 * B - 1) ks));
            result1 = (if length result > layer
                       then result[layer := result ! layer @ [node]]
                       else result @ [[node]])
        in fold (\<lambda>c r. case c of Some n \<Rightarrow> bfs B n (layer + 1) r | None \<Rightarrow> r)
             (takeWhile (\<lambda>c. c \<noteq> None) (take (2 * B) cs)) result1)"
  by pat_completeness auto
termination
proof (relation "measure (\<lambda>(B, u, layer, result). size u)")
  show "wf (measure (\<lambda>(B, u, layer, result). size u))" by simp
next
  fix B :: nat and ks :: "('k \<times> 'v) option list" and cs :: "('k, 'v) node option list"
    and layer :: nat and result x xa xb xc xd
  assume "xb \<in> set (takeWhile (\<lambda>c. c \<noteq> None) (take (2 * B) cs))" and "xb = Some xd"
  then have "Some xd \<in> set cs"
    by (auto dest!: set_takeWhileD in_set_takeD)
  then show "((B, xd, layer + 1, xc), (B, Node ks cs, layer, result))
             \<in> measure (\<lambda>(B, u, layer, result). size u)"
    using size_child_mem [of xd cs] by simp
qed

text \<open>\<open>Node::preorder\<close>: for each index below \<open>2B\<close>, the child first, then the element.\<close>

function preorder :: "('k, 'v) node \<Rightarrow> ('k \<times> 'v) list" where
  "preorder (Node ks cs) =
     concat (map (\<lambda>(c, s). (case c of Some n \<Rightarrow> preorder n | None \<Rightarrow> [])
                          @ (case s of Some e \<Rightarrow> [e] | None \<Rightarrow> []))
                 (zip cs ks))"
  by pat_completeness auto
termination
proof (relation "measure size")
  show "wf (measure size)" by simp
next
  fix ks :: "('k \<times> 'v) option list" and cs :: "('k, 'v) node option list" and x xa y x2
  assume "x \<in> set (zip cs ks)" and "(xa, y) = x" and "xa = Some x2"
  then have "Some x2 \<in> set cs"
    by (auto dest: set_zip_leftD)
  then show "(x2, Node ks cs) \<in> measure size"
    using size_child_mem [of x2 cs] by simp
qed

subsection \<open>Searching a node\<close>

text \<open>
  \<open>find_it\<close> is a binary search over the first \<open>length\<close> key slots, a null slot
  counting as greater than every key. It returns \<open>-(m + 1)\<close> when the key is at
  index \<open>m\<close>, and otherwise the index \<open>lo\<close> of the child to descend into. The loop of
  the source runs while \<open>hi != lo\<close>; it starts with \<open>lo = 0 \<le> hi\<close> and keeps
  \<open>lo \<le> hi\<close>, so the test is written \<open>hi \<le> lo\<close> here.
\<close>

function find_it_loop :: "('k::linorder \<times> 'v) option list \<Rightarrow> 'k \<Rightarrow> nat \<Rightarrow> nat \<Rightarrow> int" where
  "find_it_loop ks k lo hi =
     (if hi \<le> lo then int lo
      else
        let m = (hi + lo) div 2;
            cmp = (case at ks m of None \<Rightarrow> - 1 | Some (km, _) \<Rightarrow> DefaultCompare k km)
        in if cmp < 0 then find_it_loop ks k lo m
           else if cmp > 0 then find_it_loop ks k (m + 1) hi
           else - (int m + 1))"
  by pat_completeness auto
termination
  by (relation "measure (\<lambda>(ks, k, lo, hi). hi - lo)") auto

definition find_it :: "('k::linorder \<times> 'v) option list \<Rightarrow> nat \<Rightarrow> 'k \<Rightarrow> int" where
  "find_it ks len k = find_it_loop ks k 0 len"

subsection \<open>Lookup and insertion\<close>

fun find_recursive :: "nat \<Rightarrow> 'k::linorder \<Rightarrow> ('k, 'v) node \<Rightarrow> 'v option" where
  "find_recursive B k (Node ks cs) =
     (let i = find_it ks (2 * B - 1) k in
      if i < 0 then map_option snd (at ks (nat (- (i + 1))))
      else
        (case at cs (nat i) of
           None \<Rightarrow> None
         | Some c \<Rightarrow> find_recursive B k c))"

text \<open>
  \<open>add_recursive\<close> changes the node \<open>u\<close> in place and returns the node split off it, or
  null. The model returns the node as the call leaves it, then the split-off node;
  the outer \<open>option\<close> is \<open>None\<close> when the call dereferences a null pointer.
\<close>

fun add_recursive ::
  "nat \<Rightarrow> 'k::linorder \<Rightarrow> 'v \<Rightarrow> ('k, 'v) node \<Rightarrow> (('k, 'v) node \<times> ('k, 'v) node option) option" where
  "add_recursive B k v (Node ks cs) =
     (let i = find_it ks (2 * B - 1) k in
      if i < 0 then Some (Node ks cs, None)
      else
        (case at cs (nat i) of
           None \<Rightarrow> Some (node_split B (node_insert k v (Node ks cs)))
         | Some c \<Rightarrow>
             (case add_recursive B k v c of
                None \<Rightarrow> None
              | Some (c', None) \<Rightarrow> Some (node_split B (Node ks (cs[nat i := Some c'])))
              | Some (c', Some w) \<Rightarrow>
                  (let (x, w') = node_remove (B - 1) w in
                   case insert_element x (Node ks (cs[nat i := Some c'])) of
                     None \<Rightarrow> None
                   | Some u' \<Rightarrow> Some (node_split B (add_child (Some w') (nat i) u'))))))"

text \<open>
  The map owns one root node. \<open>BTreeMap::insert\<close> returns \<open>false\<close> when
  \<open>add_recursive\<close> returns null, and otherwise builds a new root over the two halves
  and returns \<open>true\<close>.
\<close>

definition btree_new :: "nat \<Rightarrow> ('k, 'v) node" where
  "btree_new B = new_node B"

definition btree_insert ::
  "nat \<Rightarrow> 'k::linorder \<Rightarrow> 'v \<Rightarrow> ('k, 'v) node \<Rightarrow> (bool \<times> ('k, 'v) node) option" where
  "btree_insert B key val root =
     (case add_recursive B key val root of
        None \<Rightarrow> None
      | Some (root', None) \<Rightarrow> Some (False, root')
      | Some (root', Some w) \<Rightarrow>
          (let (x, w') = node_remove (B - 1) w;
               new_root = Node ((replicate (2 * B) None)[0 := x])
                               ((replicate (2 * B + 1) None)[0 := Some w', 1 := Some root'])
           in Some (True, new_root)))"

definition btree_find :: "nat \<Rightarrow> 'k::linorder \<Rightarrow> ('k, 'v) node \<Rightarrow> 'v option" where
  "btree_find B key root = find_recursive B key root"

subsection \<open>Rebalancing after a removal\<close>

text \<open>
  \<open>merge\<close> works on \<open>parent\<close> and on its children at \<open>merge_to_idx\<close> (the left child) and
  \<open>merge_to_idx + 1\<close> (the right child), which the source passes by reference. The
  copy loop writes \<open>keys[i]\<close> for \<open>i\<close> from the left child's size on; past the end of
  the array the model is \<open>None\<close>. The last loop moves the parent's children one
  place left from \<open>merge_to_idx + 1\<close> up to index \<open>2B - 1\<close>, which drops the right
  child; when \<open>merge_to_idx + 1 = 2B\<close> it does not run and the emptied right child
  stays.
\<close>

definition merge :: "nat \<Rightarrow> ('k::linorder, 'v) node \<Rightarrow> nat \<Rightarrow> ('k, 'v) node option" where
  "merge B parent merge_to_idx =
     (case (at (children parent) merge_to_idx, at (children parent) (merge_to_idx + 1)) of
        (Some left_child, Some right_child) \<Rightarrow>
          (let (e, parent1) = node_remove merge_to_idx parent in
           case insert_element e left_child of
             None \<Rightarrow> None
           | Some left1 \<Rightarrow>
               (let right_child_size = node_size right_child;
                    n = node_size left1
                in if n + right_child_size > 2 * B then None
                   else
                     (let ks = fold (\<lambda>j xs. xs[n + j := at (slots right_child) j])
                                 [0..<right_child_size] (slots left1);
                          cs = fold (\<lambda>j xs. xs[n + j := at (children right_child) j])
                                 [0..<right_child_size] (children left1);
                          cs' = cs[node_size (Node ks cs) := at (children right_child) right_child_size];
                          pcs = (children parent1)[merge_to_idx := Some (Node ks cs')];
                          moved = Node (replicate right_child_size None @ drop right_child_size (slots right_child))
                                       (replicate (right_child_size + 1) None
                                          @ drop (right_child_size + 1) (children right_child))
                      in Some (Node (slots parent1)
                           (if merge_to_idx + 1 < 2 * B
                            then take (merge_to_idx + 1) pcs @ drop (merge_to_idx + 2) pcs @ [None]
                            else pcs[merge_to_idx + 1 := Some moved])))))
      | _ \<Rightarrow> None)"

definition borrow_from_right :: "('k::linorder, 'v) node \<Rightarrow> nat \<Rightarrow> ('k, 'v) node option" where
  "borrow_from_right parent child_idx =
     (case (at (children parent) child_idx, at (children parent) (child_idx + 1)) of
        (Some child, Some right_sibling) \<Rightarrow>
          (let (e, right1) = node_remove 0 right_sibling;
               (p, parent1) = node_remove child_idx parent
           in do {
             parent2 \<leftarrow> insert_element e parent1;
             child1 \<leftarrow> insert_element p child;
             Some (Node (slots parent2)
                    ((children parent2)[child_idx := Some child1, child_idx + 1 := Some right1]))
           })
      | _ \<Rightarrow> None)"

definition borrow_from_left :: "('k::linorder, 'v) node \<Rightarrow> nat \<Rightarrow> ('k, 'v) node option" where
  "borrow_from_left parent child_idx =
     (case (at (children parent) child_idx, at (children parent) (child_idx - 1)) of
        (Some child, Some left_sibling) \<Rightarrow>
          (if node_size left_sibling = 0 then None
           else
             (let (e, left1) = node_remove (node_size left_sibling - 1) left_sibling;
                  (p, parent1) = node_remove (child_idx - 1) parent
              in do {
                parent2 \<leftarrow> insert_element e parent1;
                child1 \<leftarrow> insert_element p child;
                Some (Node (slots parent2)
                       ((children parent2)[child_idx := Some child1, child_idx - 1 := Some left1]))
              }))
      | _ \<Rightarrow> None)"

text \<open>
  \<open>check_child_underflow\<close>: the source's \<open>child\<close> is \<open>parent->children[child_idx]\<close> at
  every call. The test \<open>has_left_sibling && parent->children[child_idx - 1]->size() <= B\<close>
  dereferences the left sibling whenever \<open>child_idx\<close> is not 0.
\<close>

definition check_child_underflow :: "nat \<Rightarrow> ('k::linorder, 'v) node \<Rightarrow> nat \<Rightarrow> ('k, 'v) node option" where
  "check_child_underflow B parent child_idx =
     (case at (children parent) child_idx of
        None \<Rightarrow> Some parent
      | Some child \<Rightarrow>
          (if node_size child < B - 1 then
             (let has_left_sibling = (child_idx \<noteq> 0);
                  has_right_sibling = (child_idx < 2 * B \<and> at (children parent) (child_idx + 1) \<noteq> None)
              in if has_left_sibling \<and> at (children parent) (child_idx - 1) = None then None
                 else if has_left_sibling \<and> node_size (the (at (children parent) (child_idx - 1))) \<le> B
                 then merge B parent (child_idx - 1)
                 else if has_right_sibling \<and> node_size (the (at (children parent) (child_idx + 1))) \<le> B
                 then merge B parent child_idx
                 else if has_left_sibling then borrow_from_left parent child_idx
                 else if has_right_sibling then borrow_from_right parent child_idx
                 else Some parent)
           else Some parent))"

subsection \<open>Erasing\<close>

fun remove_smallest ::
  "nat \<Rightarrow> ('k::linorder, 'v) node \<Rightarrow> (('k \<times> 'v) option \<times> ('k, 'v) node) option" where
  "remove_smallest B (Node ks cs) =
     (case at cs 0 of
        None \<Rightarrow> Some (node_remove 0 (Node ks cs))
      | Some c \<Rightarrow>
          do {
            (e, c') \<leftarrow> remove_smallest B c;
            u' \<leftarrow> check_child_underflow B (Node ks (cs[0 := Some c'])) 0;
            Some (e, u')
          })"

text \<open>
  \<open>erase_recursive\<close> returns the removed value, or an empty optional; the model pairs
  it with the node as the call leaves it.
\<close>

fun erase_recursive ::
  "nat \<Rightarrow> 'k::linorder \<Rightarrow> ('k, 'v) node \<Rightarrow> ('v option \<times> ('k, 'v) node) option" where
  "erase_recursive B k (Node ks cs) =
     (let i = find_it ks (2 * B - 1) k in
      if i < 0 then
        (let idx = nat (- (i + 1));
             (e, u1) = node_remove idx (Node ks cs);
             ret = map_option snd e
         in if \<not> is_leaf u1 then
              (case at (children u1) (idx + 1) of
                 None \<Rightarrow> None
               | Some c \<Rightarrow>
                   do {
                     (borrow, c') \<leftarrow> remove_smallest B c;
                     u2 \<leftarrow> insert_element borrow
                             (Node (slots u1) ((children u1)[idx + 1 := Some c']));
                     u3 \<leftarrow> check_child_underflow B u2 (idx + 1);
                     Some (ret, u3)
                   })
            else Some (ret, u1))
      else
        (case at cs (nat i) of
           Some c \<Rightarrow>
             (case erase_recursive B k c of
                None \<Rightarrow> None
              | Some (None, c') \<Rightarrow> Some (None, Node ks (cs[nat i := Some c']))
              | Some (Some r, c') \<Rightarrow>
                  do {
                    u' \<leftarrow> check_child_underflow B (Node ks (cs[nat i := Some c'])) (nat i);
                    Some (Some r, u')
                  })
         | None \<Rightarrow> Some (None, Node ks cs)))"

definition btree_erase ::
  "nat \<Rightarrow> 'k::linorder \<Rightarrow> ('k, 'v) node \<Rightarrow> ('v option \<times> ('k, 'v) node) option" where
  "btree_erase B key root =
     do {
       (ret, root1) \<leftarrow> erase_recursive B key root;
       Some (ret,
             (if node_size root1 = 0 \<and> at (children root1) 0 \<noteq> None
              then the (at (children root1) 0) else root1))
     }"

definition btree_bfs :: "nat \<Rightarrow> ('k, 'v) node \<Rightarrow> ('k \<times> 'v) list list list" where
  "btree_bfs B root = bfs B root 0 []"

definition btree_preorder :: "('k, 'v) node \<Rightarrow> ('k \<times> 'v) list" where
  "btree_preorder root = preorder root"

subsection \<open>Sequences of public calls\<close>

text \<open>
  A caller's script is a list of \<open>insert\<close> and \<open>erase\<close> calls, run from left to right
  on the map; the results of the calls are dropped. The run is \<open>None\<close> when a call
  dereferences a null pointer.
\<close>

datatype ('k, 'v) call = Insert 'k 'v | Erase 'k

fun apply_call :: "nat \<Rightarrow> ('k::linorder, 'v) call \<Rightarrow> ('k, 'v) node \<Rightarrow> ('k, 'v) node option" where
  "apply_call B (Insert k v) root = map_option snd (btree_insert B k v root)"
| "apply_call B (Erase k) root = map_option snd (btree_erase B k root)"

fun run :: "nat \<Rightarrow> ('k::linorder, 'v) call list \<Rightarrow> ('k, 'v) node \<Rightarrow> ('k, 'v) node option" where
  "run B [] root = Some root"
| "run B (c # cs) root =
     (case apply_call B c root of None \<Rightarrow> None | Some root' \<Rightarrow> run B cs root')"

text \<open>An \<open>insert\<close> call.\<close>

fun is_insert :: "('k, 'v) call \<Rightarrow> bool" where
  "is_insert (Insert k v) = True"
| "is_insert (Erase k) = False"

subsection \<open>The properties the specification states\<close>

text \<open>
  Order: the in-order traversal (\<open>preorder\<close> in the source) yields strictly ascending
  keys.
\<close>

definition strictly_ascending :: "('k::linorder, 'v) node \<Rightarrow> bool" where
  "strictly_ascending root = sorted_wrt (<) (map fst (btree_preorder root))"

text \<open>
  Occupancy: a node other than the root holds between \<open>B - 1\<close> and \<open>2B - 1\<close> keys, and
  between \<open>B\<close> and \<open>2B\<close> children when it is not a leaf; the root holds at most
  \<open>2B - 1\<close> keys.
\<close>

definition child_count :: "('k, 'v) node \<Rightarrow> nat" where
  "child_count u = length (filter (\<lambda>c. c \<noteq> None) (children u))"

fun occupancy_below :: "nat \<Rightarrow> ('k, 'v) node \<Rightarrow> bool" where
  "occupancy_below B (Node ks cs) =
     (B - 1 \<le> node_size (Node ks cs) \<and> node_size (Node ks cs) \<le> 2 * B - 1
      \<and> (is_leaf (Node ks cs) \<or> (B \<le> child_count (Node ks cs) \<and> child_count (Node ks cs) \<le> 2 * B))
      \<and> list_all (\<lambda>c. case c of None \<Rightarrow> True | Some n \<Rightarrow> occupancy_below B n) cs)"

definition occupancy :: "nat \<Rightarrow> ('k, 'v) node \<Rightarrow> bool" where
  "occupancy B root =
     (node_size root \<le> 2 * B - 1
      \<and> list_all (\<lambda>c. case c of None \<Rightarrow> True | Some n \<Rightarrow> occupancy_below B n) (children root))"

text \<open>Balance: all leaves (nodes whose first child is null) are at the same depth.\<close>

fun leaf_depths :: "('k, 'v) node \<Rightarrow> nat \<Rightarrow> nat list" where
  "leaf_depths (Node ks cs) d =
     (if at cs 0 = None then [d]
      else concat (map (\<lambda>c. case c of None \<Rightarrow> [] | Some n \<Rightarrow> leaf_depths n (Suc d)) cs))"

definition balanced :: "('k, 'v) node \<Rightarrow> bool" where
  "balanced root = (case leaf_depths root 0 of [] \<Rightarrow> True | d # ds \<Rightarrow> list_all (\<lambda>x. x = d) ds)"

text \<open>
  The height of a tree is the number of levels below its root: 0 for a node without
  children, otherwise one more than the largest height of a child. The contents of
  a tree are its elements, as a multiset.
\<close>

fun height :: "('k, 'v) node \<Rightarrow> nat" where
  "height (Node ks cs) =
     foldr max (map (\<lambda>c. case c of None \<Rightarrow> 0 | Some n \<Rightarrow> Suc (height n)) cs) 0"

fun elems :: "('k, 'v) node \<Rightarrow> ('k \<times> 'v) multiset" where
  "elems (Node ks cs) =
     sum_list (map (\<lambda>s. case s of None \<Rightarrow> {#} | Some e \<Rightarrow> {#e#}) ks)
     + sum_list (map (\<lambda>c. case c of None \<Rightarrow> {#} | Some n \<Rightarrow> elems n) cs)"

text \<open>
  The state of the arrays between two public calls of a sound tree: both arrays have
  their declared lengths, the keys are packed at the front, the spare last key slot
  is null, and a node with \<open>n\<close> keys has no child beyond index \<open>n\<close> (so the spare last
  child slot is null too).
\<close>

fun contiguous :: "'a option list \<Rightarrow> bool" where
  "contiguous [] = True"
| "contiguous (None # xs) = list_all (\<lambda>x. x = None) xs"
| "contiguous (Some x # xs) = contiguous xs"

fun shaped :: "nat \<Rightarrow> ('k, 'v) node \<Rightarrow> bool" where
  "shaped B (Node ks cs) =
     (length ks = 2 * B \<and> length cs = 2 * B + 1 \<and> contiguous ks
      \<and> at ks (2 * B - 1) = None
      \<and> list_all (\<lambda>c. c = None) (drop (Suc (node_size (Node ks cs))) cs)
      \<and> list_all (\<lambda>c. case c of None \<Rightarrow> True | Some n \<Rightarrow> shaped B n) cs)"

text \<open>
  A node between an insertion into it and its split: as \<open>shaped\<close>, but the spare key
  slot may be taken.
\<close>

definition shaped_before_split :: "nat \<Rightarrow> ('k, 'v) node \<Rightarrow> bool" where
  "shaped_before_split B u =
     (length (slots u) = 2 * B \<and> length (children u) = 2 * B + 1 \<and> contiguous (slots u)
      \<and> list_all (\<lambda>c. c = None) (drop (Suc (node_size u)) (children u))
      \<and> list_all (\<lambda>c. case c of None \<Rightarrow> True | Some n \<Rightarrow> shaped B n) (children u))"

subsection \<open>Scripts\<close>

text \<open>
  The insertion loops of \<open>algorithm_coverage_tests\<close> (\<open>B_FACTOR = 3\<close>): for \<open>j\<close> below
  \<open>2B\<close> and \<open>i\<close> below 10, insert the key \<open>i * (2B - 1) + j\<close>. The test stores the decimal
  string of \<open>key + 1\<close>; the number \<open>key + 1\<close> stands for it here.
\<close>

definition coverage_inserts :: "(int, int) call list" where
  "coverage_inserts =
     concat (map (\<lambda>j. map (\<lambda>i. Insert (int (i * (3 * 2 - 1) + j)) (int (i * (3 * 2 - 1) + j + 1)))
                          [0..<10])
                 [0..<3 * 2])"

text \<open>
  With \<open>B = 2\<close>: insert the keys 0, 10, ..., 110 in ascending order, each with
  the value \<open>key + 1\<close>, then erase 0.
\<close>

definition ascending_inserts :: "(int, int) call list" where
  "ascending_inserts = map (\<lambda>i. Insert (10 * int i) (10 * int i + 1)) [0..<12]"

definition ascending_then_erase :: "(int, int) call list" where
  "ascending_then_erase = ascending_inserts @ [Erase 0]"

text \<open>The same script followed by three more insertions.\<close>

definition unbalancing_script :: "(int, int) call list" where
  "unbalancing_script = ascending_then_erase @ [Insert 31 32, Insert 32 33, Insert 33 34]"



text \<open>The breadth-first key layout after the coverage test's insertions and \<open>erase(44)\<close>.\<close>

definition coverage_after_erase_44 :: "int list list list option" where
  "coverage_after_erase_44 =
     map_option (\<lambda>t. map (map (map fst)) (btree_bfs 3 t))
       (run 3 (coverage_inserts @ [Erase 44]) (btree_new 3))"

text \<open>
  The scenario of the specification, with the number of leaves as a parameter: three
  layers, the root holding 15 and 31, three nodes in the middle layer, \<open>n\<close> leaves, the
  keys 43 and 45 in one leaf, and neither 43 nor 44 left in the middle layer.
\<close>

definition merged_layout :: "nat \<Rightarrow> bool" where
  "merged_layout n =
     (case coverage_after_erase_44 of
        None \<Rightarrow> False
      | Some layers \<Rightarrow>
          length layers = 3 \<and> layers ! 0 = [[15, 31]] \<and> length (layers ! 1) = 3
          \<and> length (layers ! 2) = n
          \<and> list_ex (\<lambda>node. 43 \<in> set node \<and> 45 \<in> set node) (layers ! 2)
          \<and> list_all (\<lambda>node. 43 \<notin> set node \<and> 44 \<notin> set node) (layers ! 1))"

subsection \<open>The rebalancing rules and their order\<close>

text \<open>
  The four rules of the specification are stated on a view of the parent that holds
  what the rules speak of and nothing of the array layout: the parent's elements in
  order, and for each child its elements in order and its own children. \<open>somes\<close>
  reads the non-null entries of an array; \<open>pad\<close> writes a list back into an array of
  the given length, elements first and null pointers after; \<open>pack\<close> and \<open>pack2\<close> build
  the node of a view in this layout.
\<close>

datatype rule = Merge_left | Merge_right | Borrow_right | Borrow_left

type_synonym ('k, 'v) child_view = "('k \<times> 'v) list \<times> ('k, 'v) node list"

type_synonym ('k, 'v) parent_view = "('k \<times> 'v) list \<times> ('k, 'v) child_view list"

definition somes :: "'a option list \<Rightarrow> 'a list" where
  "somes xs = concat (map (\<lambda>x. case x of None \<Rightarrow> [] | Some y \<Rightarrow> [y]) xs)"

definition pad :: "nat \<Rightarrow> 'a list \<Rightarrow> 'a option list" where
  "pad n xs = map Some xs @ replicate (n - length xs) None"

definition view :: "('k, 'v) node \<Rightarrow> ('k, 'v) child_view" where
  "view u = (somes (slots u), somes (children u))"

definition view2 :: "('k, 'v) node \<Rightarrow> ('k, 'v) parent_view" where
  "view2 u = (somes (slots u), map view (somes (children u)))"

definition pack :: "nat \<Rightarrow> ('k, 'v) child_view \<Rightarrow> ('k, 'v) node" where
  "pack B cv = Node (pad (2 * B) (fst cv)) (pad (2 * B + 1) (snd cv))"

definition pack2 :: "nat \<Rightarrow> ('k, 'v) parent_view \<Rightarrow> ('k, 'v) node" where
  "pack2 B pv = Node (pad (2 * B) (fst pv)) (pad (2 * B + 1) (map (pack B) (snd pv)))"

text \<open>
  When a rule applies to the child at index \<open>i\<close>, in the words of the specification: a
  left sibling exists with size at most \<open>B\<close>; a right sibling exists with size at most
  \<open>B\<close>; a right sibling exists with size above \<open>B\<close>; a left sibling exists with size above
  \<open>B\<close>.
\<close>

fun spec_applicable :: "nat \<Rightarrow> ('k, 'v) parent_view \<Rightarrow> nat \<Rightarrow> rule \<Rightarrow> bool" where
  "spec_applicable B (pk, pcs) i Merge_left = (0 < i \<and> length (fst (pcs ! (i - 1))) \<le> B)"
| "spec_applicable B (pk, pcs) i Merge_right = (i + 1 < length pcs \<and> length (fst (pcs ! (i + 1))) \<le> B)"
| "spec_applicable B (pk, pcs) i Borrow_right = (i + 1 < length pcs \<and> length (fst (pcs ! (i + 1))) > B)"
| "spec_applicable B (pk, pcs) i Borrow_left = (0 < i \<and> length (fst (pcs ! (i - 1))) > B)"

text \<open>
  What a rule does, in the words of the specification. Merging the children at \<open>l\<close> and
  \<open>l + 1\<close> pulls the separating key \<open>l\<close> down: the left one then holds its elements, the
  separating element and the elements of the right one, and its children followed by
  those of the right one; the separating element and the right child leave the parent.
  Borrowing from the left sibling puts its largest element in the place of the
  separating element, which goes to the front of the child; borrowing from the right
  sibling puts its smallest element in the place of the separating element, which
  goes to the end of the child. The words of the specification move no child in a
  borrow, and neither do these definitions.
\<close>

fun spec_merge :: "nat \<Rightarrow> ('k, 'v) parent_view \<Rightarrow> ('k, 'v) parent_view" where
  "spec_merge l (pk, pcs) =
     (take l pk @ drop (l + 1) pk,
      take l pcs
        @ [(fst (pcs ! l) @ [pk ! l] @ fst (pcs ! (l + 1)), snd (pcs ! l) @ snd (pcs ! (l + 1)))]
        @ drop (l + 2) pcs)"

fun spec_apply :: "rule \<Rightarrow> nat \<Rightarrow> ('k, 'v) parent_view \<Rightarrow> ('k, 'v) parent_view" where
  "spec_apply Merge_left i pv = spec_merge (i - 1) pv"
| "spec_apply Merge_right i pv = spec_merge i pv"
| "spec_apply Borrow_left i (pk, pcs) =
     (pk[i - 1 := last (fst (pcs ! (i - 1)))],
      pcs[i - 1 := (butlast (fst (pcs ! (i - 1))), snd (pcs ! (i - 1))),
          i := (pk ! (i - 1) # fst (pcs ! i), snd (pcs ! i))])"
| "spec_apply Borrow_right i (pk, pcs) =
     (pk[i := hd (fst (pcs ! (i + 1)))],
      pcs[i := (fst (pcs ! i) @ [pk ! i], snd (pcs ! i)),
          i + 1 := (tl (fst (pcs ! (i + 1))), snd (pcs ! (i + 1)))])"

text \<open>
  Rebalancing by a priority order: when the child at index \<open>i\<close> underflows
  (\<open>size < B - 1\<close>), the first applicable rule of the order is applied and nothing else;
  otherwise, and when no rule applies, the parent stays as it is.
\<close>

definition spec_rebalance :: "rule list \<Rightarrow> nat \<Rightarrow> ('k, 'v) parent_view \<Rightarrow> nat \<Rightarrow> ('k, 'v) parent_view" where
  "spec_rebalance order B pv i =
     (if i < length (snd pv) \<and> length (fst (snd pv ! i)) < B - 1 then
        (case find (spec_applicable B pv i) order of
           None \<Rightarrow> pv
         | Some r \<Rightarrow> spec_apply r i pv)
      else pv)"

text \<open>
  The order of the specification (and of the header comment of the source), and the
  order that the source and its coverage test follow.
\<close>

definition spec_order :: "rule list" where
  "spec_order = [Merge_left, Merge_right, Borrow_right, Borrow_left]"

definition source_order :: "rule list" where
  "source_order = [Merge_left, Merge_right, Borrow_left, Borrow_right]"





text \<open>A node with \<open>B = 2\<close> whose four key slots are all taken.\<close>

definition full_node :: "(int, int) node" where
  "full_node = Node [Some (1, 2), Some (3, 4), Some (5, 6), Some (7, 8)] [None, None, None, None, None]"

subsection \<open>Notions used in the proofs about insertion\<close>

text \<open>The elements in an array of slots, the elements below an array of children, and
  the largest height among the children plus one.\<close>

definition slot_mset :: "('k \<times> 'v) option list \<Rightarrow> ('k \<times> 'v) multiset" where
  "slot_mset ks = sum_list (map (\<lambda>s. case s of None \<Rightarrow> {#} | Some e \<Rightarrow> {#e#}) ks)"

definition child_mset :: "('k, 'v) node option list \<Rightarrow> ('k \<times> 'v) multiset" where
  "child_mset cs = sum_list (map (\<lambda>c. case c of None \<Rightarrow> {#} | Some n \<Rightarrow> elems n) cs)"

definition child_hmax :: "('k, 'v) node option list \<Rightarrow> nat" where
  "child_hmax cs = foldr max (map (\<lambda>c. case c of None \<Rightarrow> 0 | Some n \<Rightarrow> Suc (height n)) cs) 0"

text \<open>
  What \<open>add_recursive\<close> leaves behind on a node \<open>u\<close> in the state \<open>shaped\<close>: the node \<open>u'\<close>
  and, when it was split, the node \<open>w\<close> split off it, whose element at index \<open>B - 1\<close>
  the caller removes and promotes.
\<close>

definition add_result :: "nat \<Rightarrow> 'k::linorder \<Rightarrow> 'v \<Rightarrow> ('k, 'v) node \<Rightarrow> ('k, 'v) node \<Rightarrow> ('k, 'v) node option \<Rightarrow> bool" where
  "add_result B k v u u' w =
     (shaped B u'
      \<and> (w = None \<longrightarrow> height u' = height u
            \<and> (find_recursive B k u = None \<longrightarrow> elems u' = add_mset (k, v) (elems u))
            \<and> (find_recursive B k u \<noteq> None \<longrightarrow> u' = u))
      \<and> (\<forall>n. w = Some n \<longrightarrow> find_recursive B k u = None \<and> node_size u = 2 * B - 1
            \<and> (\<exists>e w'. node_remove (B - 1) n = (Some e, w') \<and> shaped B w'
                 \<and> max (height u') (height w') = height u
                 \<and> add_mset e (elems u' + elems w') = add_mset (k, v) (elems u))))"

text \<open>What \<open>BTreeMap::insert\<close> returns on a tree \<open>t\<close> in the state \<open>shaped\<close>: the flag \<open>b\<close> and the
  tree \<open>t'\<close>.\<close>

definition insert_result :: "nat \<Rightarrow> 'k::linorder \<Rightarrow> 'v \<Rightarrow> ('k, 'v) node \<Rightarrow> bool \<Rightarrow> ('k, 'v) node \<Rightarrow> bool" where
  "insert_result B k v t b t' =
     (shaped B t'
      \<and> (b = (\<exists>r w. add_recursive B k v t = Some (r, Some w)))
      \<and> (b \<longrightarrow> height t' = Suc (height t) \<and> node_size t = 2 * B - 1 \<and> node_size t' = 1
               \<and> find_recursive B k t = None)
      \<and> (\<not> b \<longrightarrow> height t' = height t)
      \<and> (find_recursive B k t = None \<longrightarrow> elems t' = add_mset (k, v) (elems t))
      \<and> (find_recursive B k t \<noteq> None \<longrightarrow> \<not> b \<and> t' = t))"

text \<open>A root with \<open>B = 2\<close> that holds \<open>2B - 1 = 3\<close> keys and has no children.\<close>

definition full_root :: "(int, int) node" where
  "full_root = Node [Some (1, 2), Some (3, 4), Some (5, 6), None] [None, None, None, None, None]"

text \<open>
  The in-order traversal of a node is the concatenation of one block per key slot:
  the traversal of the child at the slot's index, then the slot's element.
\<close>

definition popt :: "('k, 'v) node option \<Rightarrow> ('k \<times> 'v) list" where
  "popt c = (case c of Some n \<Rightarrow> preorder n | None \<Rightarrow> [])"

definition block :: "('k, 'v) node option \<times> ('k \<times> 'v) option \<Rightarrow> ('k \<times> 'v) list" where
  "block z = popt (fst z) @ (case snd z of Some e \<Rightarrow> [e] | None \<Rightarrow> [])"

section \<open>Theorems\<close>

subsection \<open>Splitting a node\<close>

lemma node_size_le: "node_size u \<le> length (slots u)"
  unfolding node_size_def using length_dropWhile_le [of "\<lambda>s. s = None" "rev (slots u)"] by simp

lemma node_size_full:
  assumes "slots u \<noteq> []"
  shows "(node_size u = length (slots u)) = (at (slots u) (length (slots u) - 1) \<noteq> None)"
proof -
  obtain ys y where ks: "slots u = ys @ [y]"
    using assms by (metis rev_exhaust)
  have a: "at (slots u) (length (slots u) - 1) = y"
    by (simp add: ks at_def)
  show ?thesis
  proof (cases y)
    case None
    have "length (dropWhile (\<lambda>s. s = None) (rev ys)) \<le> length ys"
      using length_dropWhile_le [of _ "rev ys"] by simp
    then show ?thesis using None a by (simp add: node_size_def ks)
  next
    case (Some e)
    then show ?thesis using a by (simp add: node_size_def ks)
  qed
qed

lemma at_append: "at (xs @ ys) i = (if i < length xs then at xs i else at ys (i - length xs))"
  by (auto simp: at_def nth_append)

lemma at_replicate [simp]: "at (replicate n None) i = None"
  by (simp add: at_def)

lemma at_Cons: "at (x # xs) i = (if i = 0 then x else at xs (i - 1))"
  by (cases i) (auto simp: at_def)

lemma at_take: "at (take n xs) i = (if i < n then at xs i else None)"
  by (auto simp: at_def)

lemma at_drop: "at (drop n xs) i = at xs (n + i)"
  by (auto simp: at_def)

text \<open>
  C9. \<open>Node::split\<close> on a node with arrays of the declared lengths: when the key count
  is below \<open>2B\<close> it returns null and leaves the node as it is. When the key count is
  \<open>2B\<close> it returns a new node that holds the first \<open>B\<close> keys with their values and the
  first \<open>B\<close> children at the same indices and is null elsewhere; the original node
  keeps the keys and values of the indices \<open>B\<close> to \<open>2B - 1\<close> and the children of the
  indices \<open>B\<close> to \<open>2B\<close>, moved down by \<open>B\<close>, and is null elsewhere. The key of
  the new node at index \<open>B - 1\<close> is the key the node had at index \<open>B - 1\<close>, the one the
  caller promotes.
\<close>

theorem node_split_spec:
  assumes B: "1 \<le> B" and lk: "length (slots u) = 2 * B" and lc: "length (children u) = 2 * B + 1"
  shows "(node_size u < 2 * B \<longrightarrow> node_split B u = (u, None))
    \<and> (node_size u = 2 * B \<longrightarrow>
         (\<exists>rest new. node_split B u = (rest, Some new)
            \<and> length (slots new) = 2 * B \<and> length (children new) = 2 * B + 1
            \<and> length (slots rest) = 2 * B \<and> length (children rest) = 2 * B + 1
            \<and> (\<forall>i. at (slots new) i = (if i < B then at (slots u) i else None))
            \<and> (\<forall>i. at (children new) i = (if i < B then at (children u) i else None))
            \<and> (\<forall>i. at (slots rest) i = (if i < B then at (slots u) (B + i) else None))
            \<and> (\<forall>i. at (children rest) i = (if i \<le> B then at (children u) (B + i) else None))
            \<and> at (slots new) (B - 1) = at (slots u) (B - 1)))"
proof -
  have ne: "slots u \<noteq> []" using B lk by auto
  have full: "(node_size u = 2 * B) = (at (slots u) (2 * B - 1) \<noteq> None)"
    using node_size_full [OF ne] lk by simp
  have le: "node_size u \<le> 2 * B"
    using node_size_le [of u] lk by simp
  have below: "node_size u < 2 * B \<longrightarrow> node_split B u = (u, None)"
    using full by (auto simp: node_split_def)
  have over: "node_size u = 2 * B \<longrightarrow>
         (\<exists>rest new. node_split B u = (rest, Some new)
            \<and> length (slots new) = 2 * B \<and> length (children new) = 2 * B + 1
            \<and> length (slots rest) = 2 * B \<and> length (children rest) = 2 * B + 1
            \<and> (\<forall>i. at (slots new) i = (if i < B then at (slots u) i else None))
            \<and> (\<forall>i. at (children new) i = (if i < B then at (children u) i else None))
            \<and> (\<forall>i. at (slots rest) i = (if i < B then at (slots u) (B + i) else None))
            \<and> (\<forall>i. at (children rest) i = (if i \<le> B then at (children u) (B + i) else None))
            \<and> at (slots new) (B - 1) = at (slots u) (B - 1))"
  proof
    assume "node_size u = 2 * B"
    then have nn: "at (slots u) (2 * B - 1) \<noteq> None" using full by simp
    show "\<exists>rest new. node_split B u = (rest, Some new)
            \<and> length (slots new) = 2 * B \<and> length (children new) = 2 * B + 1
            \<and> length (slots rest) = 2 * B \<and> length (children rest) = 2 * B + 1
            \<and> (\<forall>i. at (slots new) i = (if i < B then at (slots u) i else None))
            \<and> (\<forall>i. at (children new) i = (if i < B then at (children u) i else None))
            \<and> (\<forall>i. at (slots rest) i = (if i < B then at (slots u) (B + i) else None))
            \<and> (\<forall>i. at (children rest) i = (if i \<le> B then at (children u) (B + i) else None))
            \<and> at (slots new) (B - 1) = at (slots u) (B - 1)"
      using nn B lk lc
      by (auto simp: node_split_def at_append at_take at_drop at_Cons min_def)
  qed
  show ?thesis using below over by blast
qed

theorem node_split_spec_witness:
  "(1::nat) \<le> 2 \<and> length (slots full_node) = 2 * 2 \<and> length (children full_node) = 2 * 2 + 1
   \<and> node_size full_node = 2 * 2
   \<and> node_split 2 full_node =
       (Node [Some (5, 6), Some (7, 8), None, None] [None, None, None, None, None],
        Some (Node [Some (1, 2), Some (3, 4), None, None] [None, None, None, None, None]))
   \<and> node_size (new_node 2 :: (int, int) node) < 2 * 2
   \<and> node_split 2 (new_node 2 :: (int, int) node) = (new_node 2, None)"
proof -
  have a: "(1::nat) \<le> 2" by simp
  have b: "length (slots full_node) = 2 * 2" by (simp add: full_node_def)
  have c: "length (children full_node) = 2 * 2 + 1" by (simp add: full_node_def)
  have d: "node_size full_node = 2 * 2" by (simp add: full_node_def node_size_def)
  have e: "node_size (new_node 2 :: (int, int) node) < 2 * 2" by (simp add: new_node_def node_size_def)
  have f: "length (slots (new_node 2 :: (int, int) node)) = 2 * 2" by (simp add: new_node_def)
  have g: "length (children (new_node 2 :: (int, int) node)) = 2 * 2 + 1" by (simp add: new_node_def)
  note s1 = node_split_spec [OF a b c]
  note s2 = node_split_spec [OF a f g]
  have h: "node_split 2 (new_node 2 :: (int, int) node) = (new_node 2, None)"
    using s2 e by blast
  have i: "node_split 2 full_node =
       (Node [Some (5, 6), Some (7, 8), None, None] [None, None, None, None, None],
        Some (Node [Some (1, 2), Some (3, 4), None, None] [None, None, None, None, None]))"
    by code_simp
  show ?thesis using a b c d e h i by blast
qed

subsection \<open>Insertion into a tree in the state \<open>shaped\<close>\<close>

text \<open>Packed key arrays: the elements first, then null slots.\<close>

lemma contiguous_replicate [simp]: "contiguous (replicate m None)"
  by (cases m) (simp_all add: list_all_iff)

lemma contiguous_packed [simp]: "contiguous (map Some es @ replicate m None)"
  by (induction es) simp_all

lemma butlast_replicate_None: "butlast (replicate (Suc m) None) = replicate m None"
  by (induction m) simp_all

lemma contiguous_all_None: "list_all (\<lambda>x. x = None) xs \<Longrightarrow> xs = replicate (length xs) None"
  by (induction xs) auto

lemma contiguous_pack:
  "contiguous ks \<Longrightarrow> \<exists>es m. ks = map Some es @ replicate m None"
proof (induction ks rule: contiguous.induct)
  case 1
  then show ?case by simp
next
  case (2 xs)
  then have "None # xs = map Some [] @ replicate (Suc (length xs)) None"
    using contiguous_all_None [of xs] by simp
  then show ?case by blast
next
  case (3 x xs)
  then obtain es m where "xs = map Some es @ replicate m None" by auto
  then have "Some x # xs = map Some (x # es) @ replicate m None" by simp
  then show ?case by blast
qed

lemma node_size_packed [simp]: "node_size (Node (map Some es @ replicate m None) cs) = length es"
proof -
  have base: "dropWhile (\<lambda>s. s = None) (rev (map Some es)) = rev (map Some es)"
    by (cases es rule: rev_cases) simp_all
  have "dropWhile (\<lambda>s. s = None) (replicate m None @ rev (map Some es)) = rev (map Some es)"
    by (induction m) (simp_all add: base)
  then show ?thesis by (simp add: node_size_def)
qed

lemma butlast_packed: "butlast (xs @ replicate (Suc m) None) = xs @ replicate m None"
  using butlast_replicate_None [of m] by (simp add: butlast_append del: replicate_Suc)

lemma slot_insert_packed:
  "\<exists>es'. slot_insert k v (map Some es @ replicate (Suc m) None) = map Some es' @ replicate m None
         \<and> length es' = Suc (length es) \<and> mset es' = add_mset (k, v) (mset es)"
proof (induction es)
  case Nil
  have "slot_insert k v (map Some [] @ replicate (Suc m) None) = map Some [(k, v)] @ replicate m None"
    using butlast_replicate_None [of m] by simp
  moreover have "length [(k, v)] = Suc (length ([] :: ('a \<times> 'b) list))" by simp
  moreover have "mset [(k, v)] = add_mset (k, v) (mset [])" by simp
  ultimately show ?case by blast
next
  case (Cons e es)
  obtain k' v' where e: "e = (k', v')" by (cases e)
  show ?case
  proof (cases "DefaultCompare k k' > 0")
    case True
    from Cons obtain es' where es': "slot_insert k v (map Some es @ replicate (Suc m) None) = map Some es' @ replicate m None"
      "length es' = Suc (length es)" "mset es' = add_mset (k, v) (mset es)" by blast
    have "slot_insert k v (map Some (e # es) @ replicate (Suc m) None) = map Some (e # es') @ replicate m None"
      using True e es' by simp
    moreover have "length (e # es') = Suc (length (e # es))" using es' by simp
    moreover have "mset (e # es') = add_mset (k, v) (mset (e # es))" using es' by simp
    ultimately show ?thesis by blast
  next
    case False
    have "slot_insert k v (map Some (e # es) @ replicate (Suc m) None)
          = Some (k, v) # butlast ((Some e # map Some es) @ replicate (Suc m) None)"
      using False e by simp
    also have "\<dots> = map Some ((k, v) # e # es) @ replicate m None"
      using butlast_packed [of "Some e # map Some es" m] by simp
    finally have "slot_insert k v (map Some (e # es) @ replicate (Suc m) None) = map Some ((k, v) # e # es) @ replicate m None" .
    moreover have "length ((k, v) # e # es) = Suc (length (e # es))" by simp
    moreover have "mset ((k, v) # e # es) = add_mset (k, v) (mset (e # es))" by simp
    ultimately show ?thesis by blast
  qed
qed

lemma shift_left_packed:
  "shift_left (map Some (e # es) @ replicate m None) = map Some es @ replicate (Suc m) None"
proof (induction es arbitrary: e)
  case Nil
  then show ?case by (cases m) (auto simp: replicate_append_same)
next
  case (Cons a es)
  then show ?case by simp
qed

lemma shaped_iff: "shaped B u = (shaped_before_split B u \<and> at (slots u) (2 * B - 1) = None)"
  by (cases u) (auto simp: shaped_before_split_def)

lemma shaped_child: "shaped B u \<Longrightarrow> at (children u) i = Some c \<Longrightarrow> shaped B c"
proof -
  assume a: "shaped B u" and b: "at (children u) i = Some c"
  from b have "Some c \<in> set (children u)"
    by (metis at_def nth_mem option.distinct(1))
  moreover from a have "list_all (\<lambda>c. case c of None \<Rightarrow> True | Some n \<Rightarrow> shaped B n) (children u)"
    by (cases u) simp
  ultimately show ?thesis by (auto simp: list_all_iff)
qed

lemma at_beyond:
  assumes "list_all (\<lambda>c. c = None) (drop n cs)" and "n \<le> i"
  shows "at cs i = None"
proof (cases "i < length cs")
  case True
  then have "drop n cs ! (i - n) = cs ! i" and "i - n < length (drop n cs)"
    using assms(2) by simp_all
  then have "cs ! i \<in> set (drop n cs)"
    by (metis nth_mem)
  then show ?thesis using assms(1) True by (simp add: list_all_iff at_def)
next
  case False
  then show ?thesis by (simp add: at_def)
qed

lemma all_None_drop_Suc:
  "list_all (\<lambda>c. c = None) (drop n cs) \<Longrightarrow> list_all (\<lambda>c. c = None) (drop (Suc n) cs)"
proof -
  assume a: "list_all (\<lambda>c. c = None) (drop n cs)"
  have "set (drop (Suc n) cs) \<subseteq> set (drop n cs)"
    by (metis drop_Suc set_drop_subset tl_drop drop_drop plus_1_eq_Suc)
  then show ?thesis using a by (auto simp: list_all_iff)
qed

lemma child_index_le_size:
  "shaped_before_split B u \<Longrightarrow> at (children u) i = Some c \<Longrightarrow> i \<le> node_size u"
  using at_beyond [of "Suc (node_size u)" "children u" i]
  by (fastforce simp: shaped_before_split_def)

lemma shaped_before_split_pack:
  assumes "shaped_before_split B u"
  obtains es m where "slots u = map Some es @ replicate m None" and "length es + m = 2 * B"
    and "node_size u = length es"
proof -
  from assms have "contiguous (slots u)" and l: "length (slots u) = 2 * B"
    by (auto simp: shaped_before_split_def)
  then obtain es m where s: "slots u = map Some es @ replicate m None"
    using contiguous_pack by blast
  have "node_size u = length es"
    using s node_size_packed [of es m "children u"] by (cases u) simp
  moreover have "length es + m = 2 * B" using s l by simp
  ultimately show ?thesis using that s by blast
qed

lemma at_packed: "at (map Some es @ replicate m None) i = (if i < length es then Some (es ! i) else None)"
  by (auto simp: at_def nth_append)

lemma at_map_Some: "at (map Some es) i = (if i < length es then Some (es ! i) else None)"
  by (auto simp: at_def)

lemma node_insert_shaped:
  assumes "shaped B u" and B: "1 \<le> B"
  shows "shaped_before_split B (node_insert k v u)
         \<and> node_size (node_insert k v u) = Suc (node_size u)
         \<and> children (node_insert k v u) = children u"
proof -
  from assms have sb: "shaped_before_split B u" and last: "at (slots u) (2 * B - 1) = None"
    by (auto simp: shaped_iff)
  from sb obtain es m where s: "slots u = map Some es @ replicate m None"
    and l: "length es + m = 2 * B" and n: "node_size u = length es"
    by (rule shaped_before_split_pack)
  have "m \<noteq> 0"
  proof
    assume "m = 0"
    with l last s B show False by (auto simp: at_map_Some split: if_splits)
  qed
  then obtain m' where m: "m = Suc m'" by (cases m) auto
  obtain es' where es': "slot_insert k v (map Some es @ replicate (Suc m') None) = map Some es' @ replicate m' None"
    "length es' = Suc (length es)"
    using slot_insert_packed [of k v es m'] by blast
  have sl: "slots (node_insert k v u) = map Some es' @ replicate m' None"
    using es' s m by (simp add: node_insert_def)
  have ch: "children (node_insert k v u) = children u" by (simp add: node_insert_def)
  have sz: "node_size (node_insert k v u) = Suc (node_size u)"
    using sl n es' node_size_packed [of es' m' "children u"] by (simp add: node_insert_def)
  have "list_all (\<lambda>c. c = None) (drop (Suc (node_size u)) (children u))"
    using sb by (simp add: shaped_before_split_def)
  then have "list_all (\<lambda>c. c = None) (drop (Suc (Suc (node_size u))) (children u))"
    by (rule all_None_drop_Suc)
  then show ?thesis
    using sb sl ch sz es' l m by (simp add: shaped_before_split_def)
qed

lemma list_all_update:
  "list_all P cs \<Longrightarrow> P c \<Longrightarrow> list_all P (cs[i := c])"
  by (auto simp: list_all_iff dest: set_update_subset_insert [THEN subsetD])

lemma child_update_shaped_before_split:
  assumes "shaped_before_split B u" and "at (children u) i = Some c" and "shaped B c'"
  shows "shaped_before_split B (Node (slots u) ((children u)[i := Some c']))"
proof -
  have le: "i \<le> node_size u" using assms(1,2) by (rule child_index_le_size)
  have sz: "node_size (Node (slots u) ((children u)[i := Some c'])) = node_size u"
    by (simp add: node_size_def)
  have "drop (Suc (node_size u)) ((children u)[i := Some c']) = drop (Suc (node_size u)) (children u)"
    using le by simp
  then show ?thesis
    using assms sz by (simp add: shaped_before_split_def list_all_update)
qed

lemma child_update_shaped:
  assumes "shaped B u" and "at (children u) i = Some c" and "shaped B c'"
  shows "shaped B (Node (slots u) ((children u)[i := Some c']))"
  using assms child_update_shaped_before_split [of B u i c c'] by (simp add: shaped_iff)

lemma add_child_shaped_before_split:
  assumes "shaped_before_split B u" and "list_all (\<lambda>c. c = None) (drop (node_size u) (children u))"
    and "i < node_size u" and "shaped B w"
  shows "shaped_before_split B (add_child (Some w) i u)"
proof -
  let ?cs = "children u"
  let ?cs' = "take i ?cs @ Some w # butlast (drop i ?cs)"
  have len: "length ?cs = 2 * B + 1" and nle: "node_size u \<le> 2 * B"
    using assms(1) node_size_le [of u] by (auto simp: shaped_before_split_def)
  have i: "i < length ?cs" using assms(3) nle len by simp
  have l': "length ?cs' = 2 * B + 1" using i len by simp
  have sz: "node_size (add_child (Some w) i u) = node_size u"
    by (simp add: node_size_def add_child_def)
  have ch: "list_all (\<lambda>c. case c of None \<Rightarrow> True | Some n \<Rightarrow> shaped B n) ?cs'"
    using assms(1,4)
    by (auto simp: shaped_before_split_def list_all_iff dest: in_set_takeD in_set_butlastD in_set_dropD)
  have "drop (Suc (node_size u)) ?cs' = drop (node_size u - i) (butlast (drop i ?cs))"
    using assms(3) i by (simp add: Suc_diff_le)
  also have "\<dots> = butlast (drop (node_size u) ?cs)"
    using assms(3) by (simp add: drop_butlast [symmetric] butlast_drop)
  finally have "set (drop (Suc (node_size u)) ?cs') \<subseteq> set (drop (node_size u) ?cs)"
    by (auto dest: in_set_butlastD)
  then have bound: "list_all (\<lambda>c. c = None) (drop (Suc (node_size u)) ?cs')"
    using assms(2) by (auto simp: list_all_iff)
  show ?thesis
    using assms(1) l' sz ch bound by (simp add: shaped_before_split_def add_child_def)
qed

lemma node_remove_packed:
  assumes "idx < length es"
  shows "node_remove idx (Node (map Some es @ replicate m None) cs)
         = (Some (es ! idx), Node (map Some (take idx es @ drop (Suc idx) es) @ replicate (Suc m) None) cs)"
proof -
  have d: "drop idx (map Some es @ replicate m None) = map Some (es ! idx # drop (Suc idx) es) @ replicate m None"
    using assms by (simp add: Cons_nth_drop_Suc drop_map [symmetric] del: drop_map)
  have t: "take idx (map Some es @ replicate m None) = map Some (take idx es)"
    using assms by (simp add: take_map)
  have a: "at (map Some es @ replicate m None) idx = Some (es ! idx)"
    using assms by (simp add: at_packed)
  have "take idx (map Some es @ replicate m None) @ shift_left (drop idx (map Some es @ replicate m None))
        = map Some (take idx es) @ map Some (drop (Suc idx) es) @ replicate (Suc m) None"
    unfolding d t using shift_left_packed [of "es ! idx" "drop (Suc idx) es" m] by simp
  then show ?thesis
    using a by (simp add: node_remove_def del: replicate_Suc)
qed

lemma shaped_packedI:
  assumes "length es + m = 2 * B" and "1 \<le> m" and "length cs = 2 * B + 1"
    and "list_all (\<lambda>c. c = None) (drop (Suc (length es)) cs)"
    and "list_all (\<lambda>c. case c of None \<Rightarrow> True | Some n \<Rightarrow> shaped B n) cs"
  shows "shaped B (Node (map Some es @ replicate m None) cs)"
proof -
  have "at (map Some es @ replicate m None) (2 * B - 1) = None"
    using assms(1,2) by (simp add: at_packed)
  then show ?thesis using assms by simp
qed

lemma node_split_shaped:
  assumes B: "1 \<le> B" and sb: "shaped_before_split B u"
  shows "(at (slots u) (2 * B - 1) = None \<longrightarrow> node_split B u = (u, None) \<and> shaped B u)
       \<and> (at (slots u) (2 * B - 1) \<noteq> None \<longrightarrow>
            node_size u = 2 * B
            \<and> (\<exists>rest new e w'. node_split B u = (rest, Some new) \<and> shaped B rest
                  \<and> node_remove (B - 1) new = (Some e, w') \<and> shaped B w'))"
proof (intro conjI impI)
  assume "at (slots u) (2 * B - 1) = None"
  then show "node_split B u = (u, None)" by (simp add: node_split_def)
next
  assume "at (slots u) (2 * B - 1) = None"
  then show "shaped B u" using sb by (simp add: shaped_iff)
next
  assume nn: "at (slots u) (2 * B - 1) \<noteq> None"
  from sb obtain es m where s: "slots u = map Some es @ replicate m None"
    and l: "length es + m = 2 * B" and n: "node_size u = length es"
    by (rule shaped_before_split_pack)
  have full: "length es = 2 * B"
    using nn s l by (auto simp: at_packed split: if_splits)
  then show "node_size u = 2 * B" using n by simp
next
  assume nn: "at (slots u) (2 * B - 1) \<noteq> None"
  from sb obtain es m where s: "slots u = map Some es @ replicate m None"
    and l: "length es + m = 2 * B" and n: "node_size u = length es"
    by (rule shaped_before_split_pack)
  have full: "length es = 2 * B"
    using nn s l by (auto simp: at_packed split: if_splits)
  then have m: "m = 0" using l by simp
  let ?cs = "children u"
  have lc: "length ?cs = 2 * B + 1"
    and chs: "list_all (\<lambda>c. case c of None \<Rightarrow> True | Some n \<Rightarrow> shaped B n) ?cs"
    using sb by (auto simp: shaped_before_split_def)
  let ?rest = "Node (map Some (drop B es) @ replicate B None) (drop B ?cs @ replicate B None)"
  let ?new = "Node (map Some (take B es) @ replicate B None) (take B ?cs @ replicate (B + 1) None)"
  let ?w = "Node (map Some (take (B - 1) (take B es) @ drop (Suc (B - 1)) (take B es)) @ replicate (Suc B) None)
                 (take B ?cs @ replicate (B + 1) None)"
  have sp: "node_split B u = (?rest, Some ?new)"
    using nn s m by (simp add: node_split_def drop_map take_map)
  have chr: "list_all (\<lambda>c. case c of None \<Rightarrow> True | Some n \<Rightarrow> shaped B n) (drop B ?cs @ replicate B None)"
    using chs by (auto simp: list_all_iff dest: in_set_dropD)
  have chn: "list_all (\<lambda>c. case c of None \<Rightarrow> True | Some n \<Rightarrow> shaped B n) (take B ?cs @ replicate (B + 1) None)"
    using chs by (auto simp: list_all_iff dest: in_set_takeD)
  have "shaped B ?rest"
  proof (rule shaped_packedI)
    show "length (drop B es) + B = 2 * B" using full by simp
    show "1 \<le> B" by (rule B)
    show "length (drop B ?cs @ replicate B None) = 2 * B + 1" using lc by simp
    show "list_all (\<lambda>c. c = None) (drop (Suc (length (drop B es))) (drop B ?cs @ replicate B None))"
      using full lc by (simp add: list_all_iff)
    show "list_all (\<lambda>c. case c of None \<Rightarrow> True | Some n \<Rightarrow> shaped B n) (drop B ?cs @ replicate B None)"
      by (rule chr)
  qed
  moreover have "node_remove (B - 1) ?new = (Some (take B es ! (B - 1)), ?w)"
    using node_remove_packed [of "B - 1" "take B es" B "take B ?cs @ replicate (B + 1) None"] B full
    by simp
  moreover have "shaped B ?w"
  proof (rule shaped_packedI)
    show "length (take (B - 1) (take B es) @ drop (Suc (B - 1)) (take B es)) + Suc B = 2 * B"
      using full B by simp
    show "1 \<le> Suc B" by simp
    show "length (take B ?cs @ replicate (B + 1) None) = 2 * B + 1" using lc by simp
    show "list_all (\<lambda>c. c = None)
            (drop (Suc (length (take (B - 1) (take B es) @ drop (Suc (B - 1)) (take B es))))
               (take B ?cs @ replicate (B + 1) None))"
      using full lc B by (simp add: list_all_iff)
    show "list_all (\<lambda>c. case c of None \<Rightarrow> True | Some n \<Rightarrow> shaped B n) (take B ?cs @ replicate (B + 1) None)"
      by (rule chn)
  qed
  ultimately show "\<exists>rest new e w'. node_split B u = (rest, Some new) \<and> shaped B rest
                  \<and> node_remove (B - 1) new = (Some e, w') \<and> shaped B w'"
    using sp by blast
qed

text \<open>The search finds a key only in a slot that holds it.\<close>

lemma DefaultCompare_zero: "DefaultCompare k k' = 0 \<Longrightarrow> k = k'"
  by (auto simp: DefaultCompare_def split: if_splits)

lemma find_it_loop_found:
  "find_it_loop ks k lo hi < 0 \<Longrightarrow>
   \<exists>v. at ks (nat (- (find_it_loop ks k lo hi + 1))) = Some (k, v)"
proof (induction ks k lo hi rule: find_it_loop.induct)
  case (1 ks k lo hi)
  show ?case
  proof (cases "hi \<le> lo")
    case True
    then show ?thesis using "1.prems" by simp
  next
    case False
    let ?m = "(hi + lo) div 2"
    let ?cmp = "case at ks ?m of None \<Rightarrow> - 1 | Some (km, _) \<Rightarrow> DefaultCompare k km"
    consider (lt) "?cmp < 0" | (gt) "\<not> ?cmp < 0" "?cmp > 0" | (eq) "?cmp = 0"
      by linarith
    then show ?thesis
    proof cases
      case lt
      then have eq: "find_it_loop ks k lo hi = find_it_loop ks k lo ?m"
        using False by (simp add: Let_def)
      show ?thesis
        using "1.IH"(1) [OF False refl refl lt] "1.prems" unfolding eq by simp
    next
      case gt
      then have eq: "find_it_loop ks k lo hi = find_it_loop ks k (?m + 1) hi"
        using False by (simp add: Let_def)
      show ?thesis
        using "1.IH"(2) [OF False refl refl gt] "1.prems" unfolding eq by simp
    next
      case eq
      then have r: "find_it_loop ks k lo hi = - (int ?m + 1)"
        using False by (simp add: Let_def)
      from eq obtain km vm where a: "at ks ?m = Some (km, vm)" and "DefaultCompare k km = 0"
        by (auto split: option.splits)
      then have "km = k" using DefaultCompare_zero by metis
      then show ?thesis using a r by simp
    qed
  qed
qed

lemma find_it_found:
  "find_it ks n k < 0 \<Longrightarrow> \<exists>v. at ks (nat (- (find_it ks n k + 1))) = Some (k, v)"
  unfolding find_it_def by (rule find_it_loop_found)

lemma elems_conv: "elems u = slot_mset (slots u) + child_mset (children u)"
  by (cases u) (simp add: slot_mset_def child_mset_def)

lemma slot_mset_simps [simp]:
  "slot_mset [] = {#}"
  "slot_mset (None # ks) = slot_mset ks"
  "slot_mset (Some e # ks) = add_mset e (slot_mset ks)"
  "slot_mset (xs @ ys) = slot_mset xs + slot_mset ys"
  "slot_mset (replicate m None) = {#}"
  "slot_mset (map Some es) = mset es"
  by (induction m; induction es; simp add: slot_mset_def)+

lemma child_mset_simps [simp]:
  "child_mset [] = {#}"
  "child_mset (None # cs) = child_mset cs"
  "child_mset (Some n # cs) = elems n + child_mset cs"
  "child_mset (xs @ ys) = child_mset xs + child_mset ys"
  "child_mset (replicate m None) = {#}"
  by (induction m; simp add: child_mset_def)+

lemma height_conv: "height u = child_hmax (children u)"
  by (cases u) (simp add: child_hmax_def)

lemma child_hmax_append: "child_hmax (xs @ ys) = max (child_hmax xs) (child_hmax ys)"
  by (induction xs) (simp_all add: child_hmax_def)

lemma child_hmax_simps [simp]:
  "child_hmax [] = 0"
  "child_hmax (None # cs) = child_hmax cs"
  "child_hmax (Some n # cs) = max (Suc (height n)) (child_hmax cs)"
  "child_hmax (replicate m None) = 0"
  by (induction m; simp add: child_hmax_def)+

lemma take_drop_mset: "child_mset (take n cs) + child_mset (drop n cs) = child_mset cs"
  by (metis append_take_drop_id child_mset_simps(4))

lemma take_drop_smset: "slot_mset (take n cs) + slot_mset (drop n cs) = slot_mset cs"
  by (metis append_take_drop_id slot_mset_simps(4))

lemma take_drop_hmax: "max (child_hmax (take n cs)) (child_hmax (drop n cs)) = child_hmax cs"
  by (metis append_take_drop_id child_hmax_append)

lemma butlast_None_mset: "cs \<noteq> [] \<Longrightarrow> last cs = None \<Longrightarrow> child_mset (butlast cs) = child_mset cs"
  by (metis append_butlast_last_id child_mset_simps(1,2,4) add.right_neutral)

lemma butlast_None_hmax: "cs \<noteq> [] \<Longrightarrow> last cs = None \<Longrightarrow> child_hmax (butlast cs) = child_hmax cs"
  by (metis append_butlast_last_id child_hmax_append child_hmax_simps(1,2) max_0R)

lemma height_Node [simp]: "height (Node ks cs) = child_hmax cs"
  by (simp add: child_hmax_def)

lemma elems_Node [simp]: "elems (Node ks cs) = slot_mset ks + child_mset cs"
  by (simp add: slot_mset_def child_mset_def)

declare height.simps [simp del] elems.simps [simp del]

lemma node_split_elems:
  "node_split B u = (rest, Some new) \<Longrightarrow> elems rest + elems new = elems u"
  using take_drop_mset [of B "children u", symmetric] take_drop_smset [of B "slots u", symmetric]
  by (auto simp: node_split_def elems_conv ac_simps split: if_splits)

lemma node_split_height:
  "node_split B u = (rest, Some new) \<Longrightarrow> max (height rest) (height new) = height u"
  using take_drop_hmax [of B "children u", symmetric]
  by (auto simp: node_split_def height_conv child_hmax_append max.commute split: if_splits)

lemma node_remove_height: "node_remove i u = (e, w) \<Longrightarrow> height w = height u"
  by (auto simp: node_remove_def height_conv)

lemma node_insert_height: "height (node_insert k v u) = height u"
  by (simp add: node_insert_def height_conv)

lemma shift_left_mset: "slot_mset (shift_left (x # xs)) = slot_mset xs"
  by (induction "x # xs" arbitrary: x xs rule: shift_left.induct) simp_all

lemma node_remove_elems:
  assumes "node_remove i u = (Some e, w)"
  shows "add_mset e (elems w) = elems u"
proof -
  from assms have a: "at (slots u) i = Some e"
    and w: "w = Node (take i (slots u) @ shift_left (drop i (slots u))) (children u)"
    by (auto simp: node_remove_def)
  from a have i: "i < length (slots u)" and n: "slots u ! i = Some e"
    by (auto simp: at_def split: if_splits)
  have d: "drop i (slots u) = Some e # drop (Suc i) (slots u)"
    using i n by (metis Cons_nth_drop_Suc)
  have "slot_mset (slots u) = slot_mset (take i (slots u)) + slot_mset (drop i (slots u))"
    by (simp add: take_drop_smset)
  then show ?thesis
    unfolding w elems_conv by (simp add: d shift_left_mset)
qed

lemma node_insert_elems:
  assumes "shaped B u" and "1 \<le> B"
  shows "elems (node_insert k v u) = add_mset (k, v) (elems u)"
proof -
  from assms have sb: "shaped_before_split B u" and last: "at (slots u) (2 * B - 1) = None"
    by (auto simp: shaped_iff)
  from sb obtain es m where s: "slots u = map Some es @ replicate m None"
    and l: "length es + m = 2 * B" and n: "node_size u = length es"
    by (rule shaped_before_split_pack)
  have "m \<noteq> 0"
  proof
    assume "m = 0"
    with l last s assms(2) show False by (auto simp: at_map_Some split: if_splits)
  qed
  then obtain m' where m: "m = Suc m'" by (cases m) auto
  obtain es' where es': "slot_insert k v (map Some es @ replicate (Suc m') None) = map Some es' @ replicate m' None"
    "mset es' = add_mset (k, v) (mset es)"
    using slot_insert_packed [of k v es m'] by blast
  show ?thesis
    using es' s m by (simp add: elems_conv node_insert_def del: replicate_Suc)
qed

lemma split_effect:
  assumes B: "1 \<le> B" and sb: "shaped_before_split B u"
  shows "\<exists>u' w. node_split B u = (u', w) \<and> shaped B u'
           \<and> (w = None \<longrightarrow> u' = u)
           \<and> (\<forall>n. w = Some n \<longrightarrow> node_size u = 2 * B
                 \<and> (\<exists>e w'. node_remove (B - 1) n = (Some e, w') \<and> shaped B w'
                       \<and> max (height u') (height w') = height u
                       \<and> add_mset e (elems u' + elems w') = elems u))"
proof (cases "at (slots u) (2 * B - 1) = None")
  case True
  then show ?thesis using node_split_shaped [OF B sb] by simp
next
  case False
  then obtain rest new e w' where sp: "node_split B u = (rest, Some new)" and r: "shaped B rest"
    and rm: "node_remove (B - 1) new = (Some e, w')" and w: "shaped B w'" and sz: "node_size u = 2 * B"
    using node_split_shaped [OF B sb] by blast
  have "max (height rest) (height w') = height u"
    using node_split_height [OF sp] node_remove_height [OF rm] by simp
  moreover have "add_mset e (elems rest + elems w') = elems u"
    using node_split_elems [OF sp] node_remove_elems [OF rm] by (metis add_mset_add_single union_mset_add_mset_right add.commute)
  ultimately show ?thesis using sp r rm w sz by (cases e) simp
qed

lemma split_at_child:
  assumes "at cs i = Some c"
  obtains pre post where "cs = pre @ Some c # post" and "length pre = i"
proof -
  from assms have i: "i < length cs" and n: "cs ! i = Some c"
    by (auto simp: at_def split: if_splits)
  then have "cs = take i cs @ Some c # drop (Suc i) cs"
    by (metis id_take_nth_drop)
  moreover have "length (take i cs) = i" using i by simp
  ultimately show ?thesis using that by blast
qed

lemma shaped_size_lt:
  assumes "shaped B u" and "1 \<le> B"
  shows "node_size u < 2 * B"
proof -
  from assms have sb: "shaped_before_split B u" and last: "at (slots u) (2 * B - 1) = None"
    by (auto simp: shaped_iff)
  from sb obtain es m where s: "slots u = map Some es @ replicate m None"
    and l: "length es + m = 2 * B" and n: "node_size u = length es"
    by (rule shaped_before_split_pack)
  have "m \<noteq> 0"
  proof
    assume "m = 0"
    with l last s assms(2) show False by (auto simp: at_map_Some split: if_splits)
  qed
  then show ?thesis using l n by simp
qed

lemma shaped_last_child:
  assumes "shaped B u" and "1 \<le> B"
  shows "at (children u) (2 * B) = None"
proof -
  have "list_all (\<lambda>c. c = None) (drop (Suc (node_size u)) (children u))"
    using assms(1) by (simp add: shaped_iff shaped_before_split_def)
  then show ?thesis
    using at_beyond [of "Suc (node_size u)" "children u" "2 * B"] shaped_size_lt [OF assms] by simp
qed

lemma add_recursive_effect:
  "1 \<le> B \<Longrightarrow> shaped B u \<Longrightarrow>
   \<exists>u' w. add_recursive B k v u = Some (u', w) \<and> add_result B k v u u' w"
proof (induction B k v u rule: add_recursive.induct)
  case (1 B k v ks cs)
  let ?u = "Node ks cs"
  let ?i = "find_it ks (2 * B - 1) k"
  have B: "1 \<le> B" and sh: "shaped B ?u" using "1.prems" by auto
  have finish: ?case
    if sb: "shaped_before_split B u3" and h3: "height u3 = height ?u"
      and e3: "elems u3 = add_mset (k, v) (elems ?u)" and s3: "node_size u3 = Suc (node_size ?u)"
      and fr: "find_recursive B k ?u = None"
      and ar: "add_recursive B k v ?u = Some (node_split B u3)" for u3
  proof -
    from split_effect [OF B sb] obtain u' w where sp: "node_split B u3 = (u', w)" and su: "shaped B u'"
      and wn: "w = None \<longrightarrow> u' = u3"
      and ws: "\<forall>n. w = Some n \<longrightarrow> node_size u3 = 2 * B
                 \<and> (\<exists>e w'. node_remove (B - 1) n = (Some e, w') \<and> shaped B w'
                       \<and> max (height u') (height w') = height u3
                       \<and> add_mset e (elems u' + elems w') = elems u3)"
      by blast
    have c1: "add_recursive B k v ?u = Some (u', w)" using ar sp by simp
    have c2: "w = None \<longrightarrow> height u' = height ?u
            \<and> (find_recursive B k ?u = None \<longrightarrow> elems u' = add_mset (k, v) (elems ?u))
            \<and> (find_recursive B k ?u \<noteq> None \<longrightarrow> u' = ?u)"
      using wn h3 e3 fr by simp
    have c3: "\<forall>n. w = Some n \<longrightarrow> find_recursive B k ?u = None \<and> node_size ?u = 2 * B - 1
            \<and> (\<exists>e w'. node_remove (B - 1) n = (Some e, w') \<and> shaped B w'
                 \<and> max (height u') (height w') = height ?u
                 \<and> add_mset e (elems u' + elems w') = add_mset (k, v) (elems ?u))"
    proof (intro allI impI)
      fix n
      assume "w = Some n"
      with ws obtain e w' where a: "node_size u3 = 2 * B" "node_remove (B - 1) n = (Some e, w')"
        "shaped B w'" "max (height u') (height w') = height u3"
        "add_mset e (elems u' + elems w') = elems u3"
        by blast
      have "node_size ?u = 2 * B - 1" using a(1) s3 by simp
      moreover have "max (height u') (height w') = height ?u" using a(4) h3 by simp
      moreover have "add_mset e (elems u' + elems w') = add_mset (k, v) (elems ?u)"
        using a(5) e3 by simp
      ultimately show "find_recursive B k ?u = None \<and> node_size ?u = 2 * B - 1
            \<and> (\<exists>e w'. node_remove (B - 1) n = (Some e, w') \<and> shaped B w'
                 \<and> max (height u') (height w') = height ?u
                 \<and> add_mset e (elems u' + elems w') = add_mset (k, v) (elems ?u))"
        using fr a(2,3) by blast
    qed
    have "add_result B k v ?u u' w"
      unfolding add_result_def by (intro conjI su c2 c3)
    then show ?thesis using c1 by blast
  qed
  show ?case
  proof (cases "?i < 0")
    case True
    obtain v0 where "at ks (nat (- (?i + 1))) = Some (k, v0)"
      using find_it_found [OF True] by blast
    then have fr: "find_recursive B k ?u = Some v0" using True by (simp add: Let_def)
    have "add_recursive B k v ?u = Some (?u, None)" using True by (simp add: Let_def)
    moreover have "add_result B k v ?u ?u None"
      unfolding add_result_def using sh fr by simp
    ultimately show ?thesis by blast
  next
    case False
    show ?thesis
    proof (cases "at cs (nat ?i)")
      case None
      have fr: "find_recursive B k ?u = None" using False None by (simp add: Let_def)
      have ar: "add_recursive B k v ?u = Some (node_split B (node_insert k v ?u))"
        using False None by (simp add: Let_def)
      have a: "shaped_before_split B (node_insert k v ?u)"
        and b: "node_size (node_insert k v ?u) = Suc (node_size ?u)"
        using node_insert_shaped [OF sh B, of k v] by simp_all
      show ?thesis
        by (rule finish [OF a node_insert_height node_insert_elems [OF sh B] b fr ar])
    next
      case (Some c)
      have shc: "shaped B c" using shaped_child [OF sh, of "nat ?i" c] Some by simp
      have frc: "find_recursive B k ?u = find_recursive B k c"
        using False Some by (simp add: Let_def)
      from "1.IH" [OF refl False Some B shc]
      obtain c' w0 where arc: "add_recursive B k v c = Some (c', w0)"
        and res: "add_result B k v c c' w0"
        by blast
      have shc': "shaped B c'"
        and w0n: "w0 = None \<longrightarrow> height c' = height c
            \<and> (find_recursive B k c = None \<longrightarrow> elems c' = add_mset (k, v) (elems c))
            \<and> (find_recursive B k c \<noteq> None \<longrightarrow> c' = c)"
        and w0s: "\<forall>n. w0 = Some n \<longrightarrow> find_recursive B k c = None \<and> node_size c = 2 * B - 1
            \<and> (\<exists>e w'. node_remove (B - 1) n = (Some e, w') \<and> shaped B w'
                 \<and> max (height c') (height w') = height c
                 \<and> add_mset e (elems c' + elems w') = add_mset (k, v) (elems c))"
        using res unfolding add_result_def by blast+
      from Some obtain pre post where cs: "cs = pre @ Some c # post" and lp0: "length pre = nat ?i"
        by (rule split_at_child)
      note lp = lp0 [symmetric]
      define u1 where "u1 = Node ks (cs[nat ?i := Some c'])"
      have u1: "u1 = Node ks (pre @ Some c' # post)" using cs lp by (simp add: u1_def)
      have sh1: "shaped B u1"
        using child_update_shaped [OF sh, of "nat ?i" c c'] Some shc' by (simp add: u1_def)
      have ile: "nat ?i \<le> node_size ?u"
        using child_index_le_size [of B ?u "nat ?i" c] sh Some by (simp add: shaped_iff)
      have lcs: "length cs = 2 * B + 1" using sh by simp
      have post: "post \<noteq> []" using lcs cs lp ile shaped_size_lt [OF sh B] by auto
      have "at cs (2 * B) = None" using shaped_last_child [OF sh B] by simp
      moreover have "cs \<noteq> []" using lcs by auto
      ultimately have "last cs = None"
        using lcs by (simp add: at_def last_conv_nth)
      then have lastp: "last post = None"
        using post by (simp add: cs)
      have sz1: "node_size u1 = node_size ?u" by (simp add: node_size_def u1_def)
      show ?thesis
      proof (cases w0)
        case None
        have "node_split B u1 = (u1, None)"
          using sh1 by (simp add: node_split_def shaped_iff)
        then have ar: "add_recursive B k v ?u = Some (u1, None)"
          using False Some arc None by (simp add: Let_def u1_def)
        have h: "height u1 = height ?u"
          using w0n None by (simp add: u1 cs child_hmax_append)
        have e: "find_recursive B k ?u = None \<longrightarrow> elems u1 = add_mset (k, v) (elems ?u)"
          using w0n None frc by (simp add: u1 cs)
        have i: "find_recursive B k ?u \<noteq> None \<longrightarrow> u1 = ?u"
          using w0n None frc by (simp add: u1 cs)
        have "add_result B k v ?u u1 None"
          unfolding add_result_def using sh1 h e i by simp
        then show ?thesis using ar by blast
      next
        case (Some n)
        from w0s Some obtain e w' where fr: "find_recursive B k c = None"
          and rm: "node_remove (B - 1) n = (Some e, w')" and shw: "shaped B w'"
          and hm: "max (height c') (height w') = height c"
          and em: "add_mset e (elems c' + elems w') = add_mset (k, v) (elems c)"
          by blast
        obtain ek ev where e: "e = (ek, ev)" by (cases e)
        define u2 where "u2 = node_insert ek ev u1"
        define u3 where "u3 = add_child (Some w') (nat ?i) u2"
        have ar: "add_recursive B k v ?u = Some (node_split B u3)"
          using False \<open>at cs (nat ?i) = Some c\<close> arc Some rm e
          by (simp add: Let_def insert_element_def u1_def u2_def u3_def)
        have ins: "shaped_before_split B u2" "node_size u2 = Suc (node_size u1)"
          "children u2 = children u1"
          using node_insert_shaped [OF sh1 B, of ek ev] by (simp_all add: u2_def)
        have "list_all (\<lambda>c. c = None) (drop (Suc (node_size u1)) (children u1))"
          using sh1 by (simp add: shaped_iff shaped_before_split_def)
        then have sb3: "shaped_before_split B u3"
          using add_child_shaped_before_split [OF ins(1) _ _ shw, of "nat ?i"] ins(2,3) ile sz1
          by (simp add: u3_def)
        have c2: "children u2 = pre @ Some c' # post"
          using ins(3) u1 by simp
        have "children u3 = take (length pre) (children u2) @ Some w' # butlast (drop (length pre) (children u2))"
          using lp by (simp add: add_child_def u3_def)
        then have ch3: "children u3 = pre @ Some w' # Some c' # butlast post"
          using post by (simp add: c2)
        have sl3: "slots u3 = slots u2" by (simp add: add_child_def u3_def)
        have "height u3 = child_hmax (children u3)" by (rule height_conv)
        then have h3: "height u3 = height ?u"
          using hm butlast_None_hmax [OF post lastp]
          by (simp add: ch3 cs child_hmax_append)
        have "elems u2 = add_mset e (elems u1)"
          using node_insert_elems [OF sh1 B, of ek ev] e by (simp add: u2_def)
        then have "slot_mset (slots u2) = add_mset e (slot_mset ks)"
          using elems_conv [of u2] by (simp add: c2 u1)
        moreover have "elems u3 = slot_mset (slots u3) + child_mset (children u3)"
          by (rule elems_conv)
        moreover have "add_mset e (elems w' + elems c') = add_mset (k, v) (elems c)"
          using em by (simp add: add.commute)
        ultimately have e3: "elems u3 = add_mset (k, v) (elems ?u)"
          using butlast_None_mset [OF post lastp]
          by (simp add: ch3 sl3 cs)
        have s3: "node_size u3 = Suc (node_size ?u)"
          using ins(2) sz1 by (simp add: node_size_def add_child_def u3_def)
        have fru: "find_recursive B k ?u = None" using frc fr by simp
        show ?thesis
          by (rule finish [OF sb3 h3 e3 s3 fru ar])
      qed
    qed
  qed
qed

text \<open>The in-order traversal of a tree in the state \<open>shaped\<close> lists its contents.\<close>

lemma zip_sum_split:
  "length cs = length ks \<Longrightarrow>
   mset (concat (map (\<lambda>(c, s). (case c of Some n \<Rightarrow> preorder n | None \<Rightarrow> [])
                          @ (case s of Some e \<Rightarrow> [e] | None \<Rightarrow> [])) (zip cs ks)))
   = slot_mset ks + sum_list (map (\<lambda>c. case c of None \<Rightarrow> {#} | Some n \<Rightarrow> mset (preorder n)) cs)"
proof (induction cs ks rule: list_induct2)
  case Nil
  then show ?case by simp
next
  case (Cons c cs s ks)
  then show ?case by (cases c; cases s) simp_all
qed

lemma preorder_elems:
  "1 \<le> B \<Longrightarrow> shaped B u \<Longrightarrow> mset (preorder u) = elems u"
proof (induction u rule: preorder.induct)
  case (1 ks cs)
  have sh: "shaped B (Node ks cs)" and B: "1 \<le> B" using "1.prems" by auto
  have lk: "length ks = 2 * B" and lc: "length cs = 2 * B + 1" using sh by auto
  have "at cs (2 * B) = None" using shaped_last_child [OF sh B] by simp
  moreover have ne: "cs \<noteq> []" using lc by auto
  ultimately have "last cs = None" using lc by (simp add: at_def last_conv_nth)
  then obtain cs0 where cs: "cs = cs0 @ [None]"
    using ne by (metis append_butlast_last_id)
  have l0: "length cs0 = length ks" using cs lc lk by simp
  have ih: "mset (preorder n) = elems n" if "Some n \<in> set cs0" for n
  proof -
    have m: "Some n \<in> set cs" using that cs by simp
    then obtain i where "i < length cs" and "cs ! i = Some n"
      by (meson in_set_conv_nth)
    then have a: "at cs i = Some n" by (simp add: at_def)
    have shn: "shaped B n" using shaped_child [OF sh, of i n] a by simp
    from that obtain j where j: "j < length cs0" and cj: "cs0 ! j = Some n"
      by (meson in_set_conv_nth)
    have z: "zip cs ks = zip cs0 ks" using cs l0 by (simp add: zip_append1)
    have "zip cs0 ks ! j = (Some n, ks ! j)" and "j < length (zip cs0 ks)"
      using j cj l0 by simp_all
    then have "(Some n, ks ! j) \<in> set (zip cs ks)"
      unfolding z by (metis nth_mem)
    then show ?thesis
      using "1.IH" [of "(Some n, ks ! j)" "Some n" "ks ! j" n] B shn by simp
  qed
  have "sum_list (map (\<lambda>c. case c of None \<Rightarrow> {#} | Some n \<Rightarrow> mset (preorder n)) cs0)
        = child_mset cs0"
    unfolding child_mset_def
    by (rule arg_cong [where f = sum_list], rule map_cong) (auto split: option.splits simp: ih)
  moreover have "zip cs ks = zip cs0 ks" using cs l0 by (simp add: zip_append1)
  ultimately show ?case
    using zip_sum_split [OF l0] by (simp add: cs)
qed

lemma btree_insert_effect:
  assumes B: "1 \<le> B" and sh: "shaped B t"
  shows "\<exists>b t'. btree_insert B k v t = Some (b, t') \<and> insert_result B k v t b t'"
proof -
  from add_recursive_effect [OF B sh, of k v]
  obtain r w where ar: "add_recursive B k v t = Some (r, w)" and res: "add_result B k v t r w"
    by blast
  have shr: "shaped B r" using res by (simp add: add_result_def)
  show ?thesis
  proof (cases w)
    case None
    have bi: "btree_insert B k v t = Some (False, r)"
      using ar None by (simp add: btree_insert_def)
    have "insert_result B k v t False r"
      using res None ar by (simp add: add_result_def insert_result_def)
    then show ?thesis using bi by blast
  next
    case (Some n)
    from res Some obtain e w' where fr: "find_recursive B k t = None"
      and sz: "node_size t = 2 * B - 1"
      and rm: "node_remove (B - 1) n = (Some e, w')" and shw: "shaped B w'"
      and hm: "max (height r) (height w') = height t"
      and em: "add_mset e (elems r + elems w') = add_mset (k, v) (elems t)"
      unfolding add_result_def by blast
    obtain m where m: "2 * B = Suc (Suc m)" using B by (cases B) auto
    define t' where "t' = Node ((replicate (2 * B) None)[0 := Some e])
                              ((replicate (2 * B + 1) None)[0 := Some w', 1 := Some r])"
    have sl: "slots t' = map Some [e] @ replicate (Suc m) None"
      by (simp add: t'_def m)
    have ch: "children t' = Some w' # Some r # replicate (Suc m) None"
      by (simp add: t'_def m)
    have t'eq: "t' = Node (map Some [e] @ replicate (Suc m) None) (Some w' # Some r # replicate (Suc m) None)"
      using sl ch by (cases t') simp
    have bi: "btree_insert B k v t = Some (True, t')"
      using ar Some rm by (simp add: btree_insert_def t'_def)
    have sht: "shaped B t'"
      unfolding t'eq
    proof (rule shaped_packedI)
      show "length [e] + Suc m = 2 * B" using m by simp
      show "1 \<le> Suc m" by simp
      show "length (Some w' # Some r # replicate (Suc m) None) = 2 * B + 1" using m by simp
      show "list_all (\<lambda>c. c = None) (drop (Suc (length [e])) (Some w' # Some r # replicate (Suc m) None))"
        by (simp add: list_all_iff)
      show "list_all (\<lambda>c. case c of None \<Rightarrow> True | Some n \<Rightarrow> shaped B n)
              (Some w' # Some r # replicate (Suc m) None)"
        using shw shr by (simp add: list_all_iff)
    qed
    have h: "height t' = Suc (height t)"
      unfolding t'eq using hm by (simp add: max.commute del: replicate_Suc)
    have s1: "node_size t' = 1"
      unfolding t'eq using node_size_packed [of "[e]" "Suc m"] by simp
    have el: "elems t' = add_mset (k, v) (elems t)"
      unfolding t'eq using em by (simp add: add.commute del: replicate_Suc)
    have "insert_result B k v t True t'"
      unfolding insert_result_def using sht h sz s1 fr el ar Some by simp
    then show ?thesis using bi by blast
  qed
qed

text \<open>
  The new tree is in the state \<open>shaped\<close>, and \<open>insert\<close> keeps a tree in it: every tree
  built from the new tree by \<open>insert\<close> calls alone is in this state.
\<close>

lemma btree_new_shaped: "1 \<le> B \<Longrightarrow> shaped B (btree_new B)"
  by (simp add: btree_new_def new_node_def list_all_iff)

lemma btree_insert_shaped:
  assumes "1 \<le> B" and "shaped B t"
  shows "\<exists>b t'. btree_insert B k v t = Some (b, t') \<and> shaped B t'"
  using btree_insert_effect [OF assms, of k v] by (auto simp: insert_result_def)

lemma run_inserts_shaped:
  "1 \<le> B \<Longrightarrow> shaped B t \<Longrightarrow> list_all is_insert cs \<Longrightarrow> \<exists>t'. run B cs t = Some t' \<and> shaped B t'"
proof (induction cs arbitrary: t)
  case Nil
  then show ?case by simp
next
  case (Cons c cs)
  then obtain k v where c: "c = Insert k v" by (cases c) auto
  from btree_insert_shaped [OF Cons.prems(1,2), of k v]
  obtain b t1 where "btree_insert B k v t = Some (b, t1)" and s1: "shaped B t1" by blast
  then have "run B (c # cs) t = run B cs t1" using c by simp
  then show ?case using Cons.IH [OF Cons.prems(1) s1] Cons.prems(3) by simp
qed

subsection \<open>The lookup on an ordered tree\<close>

text \<open>
  On a tree in the state \<open>shaped\<close> whose in-order traversal is strictly ascending, the
  lookup from the root finds a key exactly when the traversal holds it: the binary
  search of a node either hits the key or gives the one child whose range can hold it.
\<close>

lemma DefaultCompare_neg: "(DefaultCompare k k' < 0) = (k < k')"
  by (auto simp: DefaultCompare_def)

lemma DefaultCompare_pos: "(DefaultCompare k k' > 0) = (k' < k)"
  by (auto simp: DefaultCompare_def)

lemma sorted_keys_nth:
  fixes es :: "('k::linorder \<times> 'v) list"
  assumes a: "sorted_wrt (<) (map fst es)" and b: "i \<le> j" and c: "j < length es"
  shows "fst (es ! i) \<le> fst (es ! j)"
proof -
  show ?thesis
  proof (cases "i = j")
    case True
    then show ?thesis by simp
  next
    case False
    then have "i < j" using b by simp
    moreover have "j < length (map fst es)" using c by simp
    ultimately have "map fst es ! i < map fst es ! j"
      using a sorted_wrt_nth_less by blast
    then show ?thesis using b c by simp
  qed
qed

lemma find_it_loop_descend:
  fixes es :: "('k::linorder \<times> 'v) list"
  assumes srt: "sorted_wrt (<) (map fst es)"
  shows "lo \<le> hi \<Longrightarrow> lo \<le> length es
    \<Longrightarrow> (\<forall>j. j < lo \<longrightarrow> j < length es \<longrightarrow> fst (es ! j) < k)
    \<Longrightarrow> (\<forall>j. hi \<le> j \<longrightarrow> j < length es \<longrightarrow> k < fst (es ! j))
    \<Longrightarrow> 0 \<le> find_it_loop (map Some es @ replicate m None) k lo hi
    \<Longrightarrow> nat (find_it_loop (map Some es @ replicate m None) k lo hi) \<le> length es
      \<and> (\<forall>j. j < nat (find_it_loop (map Some es @ replicate m None) k lo hi)
                \<longrightarrow> j < length es \<longrightarrow> fst (es ! j) < k)
      \<and> (\<forall>j. nat (find_it_loop (map Some es @ replicate m None) k lo hi) \<le> j
                \<longrightarrow> j < length es \<longrightarrow> k < fst (es ! j))"
proof (induction "map Some es @ replicate m None" k lo hi rule: find_it_loop.induct)
  case (1 k lo hi)
  let ?ks = "map Some es @ replicate m None"
  show ?case
  proof (cases "hi \<le> lo")
    case True
    then have "find_it_loop ?ks k lo hi = int lo" by simp
    moreover have "lo = hi" using True "1.prems"(1) by simp
    ultimately show ?thesis using "1.prems" by simp
  next
    case False
    let ?m = "(hi + lo) div 2"
    have mlo: "lo \<le> ?m" and mhi: "?m < hi" using False by auto
    show ?thesis
    proof (cases "?m < length es")
      case out: False
      then have a: "at ?ks ?m = None" by (simp add: at_packed)
      then have eq: "find_it_loop ?ks k lo hi = find_it_loop ?ks k lo ?m"
        using False by (simp add: Let_def)
      have cmp: "(case at ?ks ?m of None \<Rightarrow> - 1 | Some (km, _) \<Rightarrow> DefaultCompare k km) < 0"
        using a by simp
      have p4: "\<forall>j. ?m \<le> j \<longrightarrow> j < length es \<longrightarrow> k < fst (es ! j)" using out by simp
      show ?thesis
        unfolding eq
        using "1.hyps"(1) [OF False refl refl cmp mlo "1.prems"(2,3) p4] "1.prems"(5) eq by simp
    next
      case inn: True
      obtain km vm where e: "es ! ?m = (km, vm)" by (cases "es ! ?m")
      have a: "at ?ks ?m = Some (km, vm)" using inn e by (simp add: at_packed)
      consider (lt) "k < km" | (gt) "km < k" | (eq) "k = km" by (metis less_linear)
      then show ?thesis
      proof cases
        case lt
        then have cmp: "(case at ?ks ?m of None \<Rightarrow> - 1 | Some (km, _) \<Rightarrow> DefaultCompare k km) < 0"
          using a by (simp add: DefaultCompare_neg)
        then have eq: "find_it_loop ?ks k lo hi = find_it_loop ?ks k lo ?m"
          using False by (simp add: Let_def)
        have p4: "\<forall>j. ?m \<le> j \<longrightarrow> j < length es \<longrightarrow> k < fst (es ! j)"
        proof (intro allI impI)
          fix j assume "?m \<le> j" and "j < length es"
          then have "fst (es ! ?m) \<le> fst (es ! j)" using sorted_keys_nth [OF srt] by blast
          then show "k < fst (es ! j)" using lt e by simp
        qed
        show ?thesis
          unfolding eq
          using "1.hyps"(1) [OF False refl refl cmp mlo "1.prems"(2,3) p4] "1.prems"(5) eq by simp
      next
        case gt
        then have ncmp: "\<not> (case at ?ks ?m of None \<Rightarrow> - 1 | Some (km, _) \<Rightarrow> DefaultCompare k km) < 0"
          and cmp: "0 < (case at ?ks ?m of None \<Rightarrow> - 1 | Some (km, _) \<Rightarrow> DefaultCompare k km)"
          using a by (simp_all add: DefaultCompare_neg DefaultCompare_pos)
        then have eq: "find_it_loop ?ks k lo hi = find_it_loop ?ks k (?m + 1) hi"
          using False by (simp add: Let_def)
        have p3: "\<forall>j. j < ?m + 1 \<longrightarrow> j < length es \<longrightarrow> fst (es ! j) < k"
        proof (intro allI impI)
          fix j assume "j < ?m + 1" and "j < length es"
          then have "fst (es ! j) \<le> fst (es ! ?m)" using sorted_keys_nth [OF srt, of j ?m] inn by simp
          then show "fst (es ! j) < k" using gt e by simp
        qed
        have l1: "?m + 1 \<le> hi" using mhi by simp
        have l2: "?m + 1 \<le> length es" using inn by simp
        show ?thesis
          unfolding eq
          using "1.hyps"(2) [OF False refl refl ncmp cmp l1 l2 p3 "1.prems"(4)] "1.prems"(5) eq by simp
      next
        case eq
        then have "find_it_loop ?ks k lo hi = - (int ?m + 1)"
          using False a by (simp add: Let_def DefaultCompare_def)
        then show ?thesis using "1.prems"(5) by simp
      qed
    qed
  qed
qed

lemma find_it_descend:
  fixes es :: "('k::linorder \<times> 'v) list"
  assumes "sorted_wrt (<) (map fst es)" and "length es \<le> len"
    and "0 \<le> find_it (map Some es @ replicate m None) len k"
  shows "nat (find_it (map Some es @ replicate m None) len k) \<le> length es
      \<and> (\<forall>j. j < nat (find_it (map Some es @ replicate m None) len k)
                \<longrightarrow> j < length es \<longrightarrow> fst (es ! j) < k)
      \<and> (\<forall>j. nat (find_it (map Some es @ replicate m None) len k) \<le> j
                \<longrightarrow> j < length es \<longrightarrow> k < fst (es ! j))"
proof -
  have a: "(0::nat) \<le> len" and b: "0 \<le> length es" by simp_all
  have c: "\<forall>j. j < 0 \<longrightarrow> j < length es \<longrightarrow> fst (es ! j) < k" by simp
  have d: "\<forall>j. len \<le> j \<longrightarrow> j < length es \<longrightarrow> k < fst (es ! j)" using assms(2) by simp
  have e: "0 \<le> find_it_loop (map Some es @ replicate m None) k 0 len"
    using assms(3) unfolding find_it_def .
  show ?thesis
    unfolding find_it_def by (rule find_it_loop_descend [OF assms(1) a b c d e])
qed

lemma preorder_blocks: "preorder (Node ks cs) = concat (map block (zip cs ks))"
proof -
  have "(\<lambda>(c, s). (case c of Some n \<Rightarrow> preorder n | None \<Rightarrow> [])
                          @ (case s of Some e \<Rightarrow> [e] | None \<Rightarrow> []))
        = (block :: ('a, 'b) node option \<times> ('a \<times> 'b) option \<Rightarrow> ('a \<times> 'b) list)"
    by (auto simp: block_def popt_def fun_eq_iff)
  then show ?thesis by (simp only: preorder.simps)
qed

lemma in_blocks:
  "(a \<in> set (concat (map block zs))) = (\<exists>j < length zs. a \<in> set (block (zs ! j)))"
  by (auto simp: in_set_conv_nth) (metis nth_mem)+

lemma blocks_before:
  fixes zs :: "(('k::linorder, 'v) node option \<times> ('k \<times> 'v) option) list"
  assumes srt: "sorted_wrt (<) (map fst (concat (map block zs)))"
    and "j1 < j2" and "j2 < length zs"
    and a: "a \<in> set (block (zs ! j1))" and b: "b \<in> set (block (zs ! j2))"
  shows "fst a < fst b"
proof -
  let ?X = "concat (map block (take j2 zs))"
  let ?Y = "concat (map block (drop j2 zs))"
  have "concat (map block zs) = ?X @ ?Y"
    by (metis append_take_drop_id concat_append map_append)
  then have s: "sorted_wrt (<) (map fst ?X @ map fst ?Y)" using srt by simp
  have "zs ! j1 \<in> set (take j2 zs)"
    using assms(2,3) by (metis in_set_conv_nth length_take min.absorb2 nth_take less_imp_le_nat)
  then have ax: "a \<in> set ?X" using a by auto
  have "zs ! j2 \<in> set (drop j2 zs)"
    using assms(3) by (metis Cons_nth_drop_Suc list.set_intros(1))
  then have bx: "b \<in> set ?Y" using b by auto
  show ?thesis
    using s ax bx by (auto simp: sorted_wrt_append)
qed

lemma block_sorted:
  fixes zs :: "(('k::linorder, 'v) node option \<times> ('k \<times> 'v) option) list"
  assumes srt: "sorted_wrt (<) (map fst (concat (map block zs)))" and "j < length zs"
  shows "sorted_wrt (<) (map fst (block (zs ! j)))"
proof -
  have "zs = take j zs @ zs ! j # drop (Suc j) zs"
    using assms(2) by (rule id_take_nth_drop)
  then have "concat (map block zs)
     = concat (map block (take j zs)) @ block (zs ! j) @ concat (map block (drop (Suc j) zs))"
    by (metis concat.simps(2) concat_append list.simps(9) map_append)
  then show ?thesis using srt by (simp add: sorted_wrt_append)
qed


lemma sorted_keys_unique:
  fixes xs :: "('k::linorder \<times> 'v) list"
  assumes "sorted_wrt (<) (map fst xs)" and "(k, v) \<in> set xs" and "(k, v') \<in> set xs"
  shows "v = v'"
proof -
  have "distinct (map fst xs)" using assms(1) strict_sorted_iff by blast
  then show ?thesis using assms(2,3) eq_key_imp_eq_value by metis
qed

lemma find_iff_stored:
  fixes u :: "('k::linorder, 'v) node"
  shows "1 \<le> B \<Longrightarrow> shaped B u \<Longrightarrow> sorted_wrt (<) (map fst (preorder u)) \<Longrightarrow>
    (find_recursive B k u = Some v) = ((k, v) \<in> set (preorder u))"
proof (induction B k u rule: find_recursive.induct)
  case (1 B k ks cs)
  have B: "1 \<le> B" and sh: "shaped B (Node ks cs)"
    and srt: "sorted_wrt (<) (map fst (preorder (Node ks cs)))" using "1.prems" by auto
  have sb: "shaped_before_split B (Node ks cs)" using sh by (simp only: shaped_iff)
  obtain es m where s0: "slots (Node ks cs) = map Some es @ replicate m None"
    and l: "length es + m = 2 * B" and n0: "node_size (Node ks cs) = length es"
    using sb by (rule shaped_before_split_pack)
  have s: "ks = map Some es @ replicate m None" using s0 by simp
  have lt: "length es < 2 * B" using shaped_size_lt [OF sh B] n0 by simp
  have lk: "length ks = 2 * B" and lc: "length cs = 2 * B + 1" using sh by auto
  have bey: "list_all (\<lambda>c. c = None) (drop (Suc (length es)) cs)"
    using sh n0 by simp
  define zs where "zs = zip cs ks"
  have lz: "length zs = 2 * B" using lk lc by (simp add: zs_def)
  have pre: "preorder (Node ks cs) = concat (map block zs)"
    unfolding zs_def by (rule preorder_blocks)
  have srt': "sorted_wrt (<) (map fst (concat (map block zs)))" using srt pre by simp
  have blk: "block (zs ! j) = popt (cs ! j) @ (if j < length es then [es ! j] else [])"
    if "j < 2 * B" for j
  proof -
    have "zs ! j = (cs ! j, ks ! j)" using that lk lc by (simp add: zs_def)
    moreover have "ks ! j = (if j < length es then Some (es ! j) else None)"
      using that l by (auto simp: s nth_append)
    ultimately show ?thesis by (simp add: block_def)
  qed
  have blk_empty: "block (zs ! j) = []" if "j < 2 * B" and "length es < j" for j
  proof -
    have "at cs j = None" using at_beyond [OF bey, of j] that by simp
    then have "cs ! j = None" using that lc by (simp add: at_def)
    then show ?thesis using blk [OF that(1)] that(2) by (simp add: popt_def)
  qed
  have es_in: "es ! j \<in> set (block (zs ! j))" if "j < length es" for j
    using blk [of j] that lt by simp
  have below: "fst a < fst (es ! j)" if "j < length es" and "a \<in> set (popt (cs ! j))" for a j
  proof -
    have "sorted_wrt (<) (map fst (block (zs ! j)))"
      using block_sorted [OF srt', of j] that lt lz by simp
    then have "sorted_wrt (<) (map fst (popt (cs ! j)) @ [fst (es ! j)])"
      using blk [of j] that lt by simp
    then show ?thesis using that(2) by (auto simp: sorted_wrt_append)
  qed
  have srt_es: "sorted_wrt (<) (map fst es)"
  proof -
    have "fst (es ! i) < fst (es ! j)" if "i < j" and "j < length es" for i j
    proof -
      have "i < length es" using that by simp
      then show ?thesis
        using blocks_before [OF srt' that(1), of "es ! i" "es ! j"] es_in that lt lz by simp
    qed
    then show ?thesis by (simp add: sorted_wrt_iff_nth_less)
  qed
  define i where "i = find_it ks (2 * B - 1) k"
  have unf: "find_recursive B k (Node ks cs) =
      (if i < 0 then map_option snd (at ks (nat (- (i + 1))))
       else (case at cs (nat i) of None \<Rightarrow> None | Some c \<Rightarrow> find_recursive B k c))"
    unfolding i_def by (simp only: find_recursive.simps Let_def)
  show ?case
  proof (cases "i < 0")
    case True
    then obtain v0 where a: "at ks (nat (- (i + 1))) = Some (k, v0)"
      using find_it_found [of ks "2 * B - 1" k] by (auto simp: i_def)
    have fr: "find_recursive B k (Node ks cs) = Some v0"
      using True a by (simp only: unf if_True option.map_sel option.simps snd_conv)
    define p where "p = nat (- (i + 1))"
    have pl: "p < length es" and pe: "es ! p = (k, v0)"
      using a by (auto simp: s at_packed p_def split: if_splits)
    have "(k, v0) \<in> set (block (zs ! p))" using es_in [OF pl] pe by simp
    moreover have "p < length zs" using pl lt lz by simp
    ultimately have mem: "(k, v0) \<in> set (preorder (Node ks cs))"
      unfolding pre in_blocks by blast
    show ?thesis
    proof
      assume "find_recursive B k (Node ks cs) = Some v"
      then show "(k, v) \<in> set (preorder (Node ks cs))" using fr mem by simp
    next
      assume "(k, v) \<in> set (preorder (Node ks cs))"
      then have "v = v0" using sorted_keys_unique [OF srt _ mem] by blast
      then show "find_recursive B k (Node ks cs) = Some v" using fr by simp
    qed
  next
    case False
    define r where "r = nat i"
    have le1: "length es \<le> 2 * B - 1" using lt by simp
    have nn: "0 \<le> find_it (map Some es @ replicate m None) (2 * B - 1) k"
      using False by (simp add: i_def s)
    have d: "r \<le> length es
       \<and> (\<forall>j. j < r \<longrightarrow> j < length es \<longrightarrow> fst (es ! j) < k)
       \<and> (\<forall>j. r \<le> j \<longrightarrow> j < length es \<longrightarrow> k < fst (es ! j))"
      unfolding r_def i_def s by (rule find_it_descend [OF srt_es le1 nn])
    have rl: "r \<le> length es" and lo: "\<And>j. j < r \<Longrightarrow> fst (es ! j) < k"
      and hi: "\<And>j. r \<le> j \<Longrightarrow> j < length es \<Longrightarrow> k < fst (es ! j)"
      using d by auto
    have r2: "r < 2 * B" using rl lt by simp
    have key: "((k, v) \<in> set (preorder (Node ks cs))) = ((k, v) \<in> set (popt (cs ! r)))"
    proof
      assume "(k, v) \<in> set (preorder (Node ks cs))"
      then obtain j where j: "j < 2 * B" and inb: "(k, v) \<in> set (block (zs ! j))"
        unfolding pre in_blocks using lz by auto
      have jl: "j \<le> length es" using blk_empty [OF j] inb by (cases "length es < j") auto
      consider "j < r" | "j = r" | "r < j" by arith
      then show "(k, v) \<in> set (popt (cs ! r))"
      proof cases
        case 1
        then have jj: "j < length es" using rl by simp
        have "(k, v) = es ! j \<or> (k, v) \<in> set (popt (cs ! j))"
          using inb blk [OF j] jj by auto
        then have "k \<le> fst (es ! j)"
        proof
          assume "(k, v) = es ! j"
          then show ?thesis by (metis fst_conv order_refl)
        next
          assume "(k, v) \<in> set (popt (cs ! j))"
          then show ?thesis using below [OF jj] by fastforce
        qed
        then show ?thesis using lo [OF 1] by simp
      next
        case 2
        have "(k, v) \<noteq> es ! r" if "r < length es"
          using hi [of r] that by (metis fst_conv order_refl less_irrefl)
        then show ?thesis using inb blk [OF j] 2 by (auto split: if_splits)
      next
        case 3
        then have rr: "r < length es" using jl by simp
        have "fst (es ! r) < fst (k, v)"
          using blocks_before [OF srt' 3, of "es ! r" "(k, v)"] es_in [OF rr] inb j lz by simp
        then show ?thesis using hi [of r] rr by simp
      qed
    next
      assume "(k, v) \<in> set (popt (cs ! r))"
      then have "(k, v) \<in> set (block (zs ! r))" using blk [OF r2] by simp
      moreover have "r < length zs" using r2 lz by simp
      ultimately show "(k, v) \<in> set (preorder (Node ks cs))"
        unfolding pre in_blocks by blast
    qed
    have atr: "at cs (nat i) = cs ! r" using r2 lc by (simp add: at_def r_def)
    show ?thesis
    proof (cases "cs ! r")
      case None
      then have "find_recursive B k (Node ks cs) = None"
        using False atr by (simp only: unf if_False option.simps)
      then show ?thesis using key None by (simp add: popt_def)
    next
      case (Some c)
      then have ac: "at cs (nat i) = Some c" using atr by simp
      have fr: "find_recursive B k (Node ks cs) = find_recursive B k c"
        using False ac by (simp only: unf if_False option.simps)
      have shc: "shaped B c" using shaped_child [OF sh, of "nat i" c] ac by simp
      have "sorted_wrt (<) (map fst (block (zs ! r)))"
        using block_sorted [OF srt', of r] r2 lz by simp
      then have sc: "sorted_wrt (<) (map fst (preorder c))"
        using blk [OF r2] Some by (simp add: popt_def sorted_wrt_append)
      have "(find_recursive B k c = Some v) = ((k, v) \<in> set (preorder c))"
        using "1.IH" [OF i_def False ac B shc sc] .
      then show ?thesis using fr key Some by (simp add: popt_def)
    qed
  qed
qed

lemma find_iff_key_stored:
  fixes t :: "('k::linorder, 'v) node"
  assumes "1 \<le> B" and "shaped B t" and "strictly_ascending t"
  shows "(btree_find B k t \<noteq> None) = (k \<in> fst ` set (btree_preorder t))"
proof -
  have srt: "sorted_wrt (<) (map fst (preorder t))"
    using assms(3) by (simp add: strictly_ascending_def btree_preorder_def)
  have "(find_recursive B k t = Some v) = ((k, v) \<in> set (preorder t))" for v
    using find_iff_stored [OF assms(1,2) srt] .
  then show ?thesis
    unfolding btree_find_def btree_preorder_def by force
qed

subsection \<open>The result of insert\<close>

text \<open>
  C10. On a tree in the state \<open>shaped\<close> (\<open>B \<ge> 1\<close>) \<open>BTreeMap::insert\<close> returns a result, and
  the boolean is true exactly when \<open>add_recursive\<close> hands back a node split off the
  root, which is exactly when the height of the tree grows by one. In that case
  the root held \<open>2B - 1\<close> keys before the call (it overflowed to \<open>2B\<close>) and the new root
  holds one key. In every other case the result is false and the height is
  unchanged, also when the key was absent and has been stored (as for the first key
  put into the new tree).
\<close>

theorem insert_true_iff_root_split:
  assumes "1 \<le> B" and "shaped B t"
  shows "\<exists>b t'. btree_insert B k v t = Some (b, t')
           \<and> (b = (\<exists>r w. add_recursive B k v t = Some (r, Some w)))
           \<and> (b = (height t' = Suc (height t)))
           \<and> (b \<longrightarrow> node_size t = 2 * B - 1 \<and> node_size t' = 1)
           \<and> (\<not> b \<longrightarrow> height t' = height t)"
proof -
  from btree_insert_effect [OF assms, of k v]
  obtain b t' where bi: "btree_insert B k v t = Some (b, t')" and res: "insert_result B k v t b t'"
    by blast
  have "b = (\<exists>r w. add_recursive B k v t = Some (r, Some w))"
    and "b \<longrightarrow> node_size t = 2 * B - 1 \<and> node_size t' = 1"
    and "\<not> b \<longrightarrow> height t' = height t"
    and "b \<longrightarrow> height t' = Suc (height t)"
    using res unfolding insert_result_def by blast+
  moreover from this have "b = (height t' = Suc (height t))" by auto
  ultimately show ?thesis using bi by blast
qed

theorem insert_true_iff_root_split_witness:
  "(1::nat) \<le> 2 \<and> shaped 2 (btree_new 2 :: (int, int) node) \<and> shaped 2 full_root
   \<and> btree_find 2 7 (btree_new 2 :: (int, int) node) = None
   \<and> btree_insert 2 7 8 (btree_new 2 :: (int, int) node)
       = Some (False, Node [Some (7, 8), None, None, None] [None, None, None, None, None])
   \<and> height (Node [Some (7, 8 :: int), None, None, None] [None, None, None, None, None] :: (int, int) node)
       = height (btree_new 2 :: (int, int) node)
   \<and> btree_insert 2 7 8 full_root
       = Some (True, Node [Some (3, 4), None, None, None]
                       [Some (Node [Some (1, 2), None, None, None] [None, None, None, None, None]),
                        Some (Node [Some (5, 6), Some (7, 8), None, None] [None, None, None, None, None]),
                        None, None, None])
   \<and> node_size full_root = 2 * 2 - 1
   \<and> height (Node [Some (3, 4), None, None, None]
                       [Some (Node [Some (1, 2), None, None, None] [None, None, None, None, None]),
                        Some (Node [Some (5, 6), Some (7, 8), None, None] [None, None, None, None, None]),
                        None, None, None] :: (int, int) node)
       = Suc (height full_root)"
proof -
  have B: "(1::nat) \<le> 2" by simp
  have s1: "shaped 2 (btree_new 2 :: (int, int) node)" by code_simp
  have s2: "shaped 2 full_root" by code_simp
  have f: "btree_find 2 7 (btree_new 2 :: (int, int) node) = None" by code_simp
  have i1: "btree_insert 2 7 8 (btree_new 2 :: (int, int) node)
       = Some (False, Node [Some (7, 8), None, None, None] [None, None, None, None, None])"
    by code_simp
  have i2: "btree_insert 2 7 8 full_root
       = Some (True, Node [Some (3, 4), None, None, None]
                       [Some (Node [Some (1, 2), None, None, None] [None, None, None, None, None]),
                        Some (Node [Some (5, 6), Some (7, 8), None, None] [None, None, None, None, None]),
                        None, None, None])"
    by code_simp
  from insert_true_iff_root_split [OF B s1, of 7 8] i1
  have h1: "height (Node [Some (7, 8 :: int), None, None, None] [None, None, None, None, None] :: (int, int) node)
       = height (btree_new 2 :: (int, int) node)"
    by auto
  from insert_true_iff_root_split [OF B s2, of 7 8] i2
  have h2: "node_size full_root = 2 * 2 - 1
     \<and> height (Node [Some (3, 4), None, None, None]
                       [Some (Node [Some (1, 2), None, None, None] [None, None, None, None, None]),
                        Some (Node [Some (5, 6), Some (7, 8), None, None] [None, None, None, None, None]),
                        None, None, None] :: (int, int) node)
       = Suc (height full_root)"
    by auto
  show ?thesis using B s1 s2 f i1 i2 h1 h2 by blast
qed

text \<open>
  C1, as amended. On a tree in the state \<open>shaped\<close> (\<open>B \<ge> 1\<close>) whose in-order traversal is
  strictly ascending: when \<open>key\<close> is stored anywhere in the tree, \<open>insert(key, value)\<close>
  returns false and leaves the tree as it is. When it is stored nowhere, the call stores
  the entry: the in-order traversal gains exactly the element \<open>(key, value)\<close>; the boolean
  is true exactly when the height grows by one, that is when the root was split, and
  then the root held \<open>2B - 1\<close> keys before.
\<close>

theorem insert_duplicate_or_store:
  fixes t :: "('k::linorder, 'v) node"
  assumes "1 \<le> B" and "shaped B t" and "strictly_ascending t"
  shows "(k \<in> fst ` set (btree_preorder t) \<longrightarrow> btree_insert B k v t = Some (False, t))
       \<and> (k \<notin> fst ` set (btree_preorder t) \<longrightarrow>
            (\<exists>b t'. btree_insert B k v t = Some (b, t')
               \<and> mset (btree_preorder t') = add_mset (k, v) (mset (btree_preorder t))
               \<and> (b = (height t' = Suc (height t)))
               \<and> (b \<longrightarrow> node_size t = 2 * B - 1)))"
proof -
  have sh: "shaped B t" and B: "1 \<le> B" using assms by auto
  from btree_insert_effect [OF B sh, of k v]
  obtain b t' where bi: "btree_insert B k v t = Some (b, t')" and res: "insert_result B k v t b t'"
    by blast
  have sht: "shaped B t'"
    and dup: "find_recursive B k t \<noteq> None \<longrightarrow> \<not> b \<and> t' = t"
    and sto: "find_recursive B k t = None \<longrightarrow> elems t' = add_mset (k, v) (elems t)"
    and "b \<longrightarrow> node_size t = 2 * B - 1"
    and "\<not> b \<longrightarrow> height t' = height t"
    and "b \<longrightarrow> height t' = Suc (height t)"
    using res unfolding insert_result_def by blast+
  then have hb: "b = (height t' = Suc (height t))" and sz: "b \<longrightarrow> node_size t = 2 * B - 1"
    by auto
  have p: "mset (btree_preorder t') = elems t'" "mset (btree_preorder t) = elems t"
    using preorder_elems [OF B sht] preorder_elems [OF B sh]
    by (simp_all add: btree_preorder_def)
  have fi: "(find_recursive B k t \<noteq> None) = (k \<in> fst ` set (btree_preorder t))"
    using find_iff_key_stored [OF assms, of k] by (simp add: btree_find_def)
  have a: "k \<in> fst ` set (btree_preorder t) \<longrightarrow> btree_insert B k v t = Some (False, t)"
    using dup bi fi by auto
  have b: "k \<notin> fst ` set (btree_preorder t) \<longrightarrow>
            (\<exists>b t'. btree_insert B k v t = Some (b, t')
               \<and> mset (btree_preorder t') = add_mset (k, v) (mset (btree_preorder t))
               \<and> (b = (height t' = Suc (height t)))
               \<and> (b \<longrightarrow> node_size t = 2 * B - 1))"
    using sto bi hb sz p fi by auto
  show ?thesis using a b by blast
qed

text \<open>
  C1 as stated fails: the key 7 is stored nowhere in the new tree, \<open>insert(7, 8)\<close> stores
  it, and the result is false.
\<close>

theorem insert_absent_key_returns_false:
  "(7::int) \<notin> fst ` set (btree_preorder (btree_new 2 :: (int, int) node))
   \<and> btree_insert 2 7 8 (btree_new 2 :: (int, int) node)
       = Some (False, Node [Some (7, 8), None, None, None] [None, None, None, None, None])
   \<and> btree_preorder (Node [Some (7, 8), None, None, None] [None, None, None, None, None] :: (int, int) node)
       = [(7, 8)]"
  by code_simp

theorem insert_duplicate_or_store_witness:
  "(1::nat) \<le> 2 \<and> shaped 2 full_root \<and> strictly_ascending full_root
   \<and> (3::int) \<in> fst ` set (btree_preorder full_root)
   \<and> btree_insert 2 3 9 full_root = Some (False, full_root)
   \<and> (7::int) \<notin> fst ` set (btree_preorder full_root)
   \<and> btree_insert 2 7 8 full_root
       = Some (True, Node [Some (3, 4), None, None, None]
                       [Some (Node [Some (1, 2), None, None, None] [None, None, None, None, None]),
                        Some (Node [Some (5, 6), Some (7, 8), None, None] [None, None, None, None, None]),
                        None, None, None])
   \<and> mset (btree_preorder (Node [Some (3, 4), None, None, None]
                       [Some (Node [Some (1, 2), None, None, None] [None, None, None, None, None]),
                        Some (Node [Some (5, 6), Some (7, 8), None, None] [None, None, None, None, None]),
                        None, None, None] :: (int, int) node))
       = add_mset (7, 8) (mset (btree_preorder full_root))"
proof -
  have B: "(1::nat) \<le> 2" by simp
  have s2: "shaped 2 full_root" by code_simp
  have a2: "strictly_ascending full_root" by code_simp
  have f1: "(3::int) \<in> fst ` set (btree_preorder full_root)" by code_simp
  have f2: "(7::int) \<notin> fst ` set (btree_preorder full_root)" by code_simp
  have i2: "btree_insert 2 7 8 full_root
       = Some (True, Node [Some (3, 4), None, None, None]
                       [Some (Node [Some (1, 2), None, None, None] [None, None, None, None, None]),
                        Some (Node [Some (5, 6), Some (7, 8), None, None] [None, None, None, None, None]),
                        None, None, None])"
    by code_simp
  from insert_duplicate_or_store [OF B s2 a2, of 3 9] f1
  have d: "btree_insert 2 3 9 full_root = Some (False, full_root)" by blast
  from insert_duplicate_or_store [OF B s2 a2, of 7 8] f2 i2
  have m: "mset (btree_preorder (Node [Some (3, 4), None, None, None]
                       [Some (Node [Some (1, 2), None, None, None] [None, None, None, None, None]),
                        Some (Node [Some (5, 6), Some (7, 8), None, None] [None, None, None, None, None]),
                        None, None, None] :: (int, int) node))
       = add_mset (7, 8) (mset (btree_preorder full_root))"
    by auto
  show ?thesis using B s2 a2 f1 d f2 i2 m by blast
qed

subsection \<open>The scenario of the coverage test\<close>

text \<open>
  C3. With \<open>B = 3\<close>, after the coverage test's insertions of the keys 0..50 and
  \<open>erase(44)\<close>, the breadth-first snapshot has three layers: the root \<open>{15, 31}\<close>, a
  middle layer of 3 nodes from which the separator 43 is gone, and a leaf layer in
  which 43 and 45 share one node. The leaf layer has 12 nodes; the layout is the
  one the test expects (\<open>expected_keys_1\<close>).
\<close>

theorem coverage_erase_44_layout:
  "merged_layout 12
   \<and> coverage_after_erase_44 = Some
       [[[15, 31]],
        [[2, 5, 10], [18, 21, 25], [35, 40, 46]],
        [[0, 1], [3, 4], [6, 7, 8, 9], [11, 12, 13, 14], [16, 17], [19, 20],
         [22, 23, 24], [26, 27, 28, 29, 30], [32, 33, 34], [36, 37, 38, 39],
         [41, 42, 43, 45], [47, 48, 49, 50]]]"
  by code_simp

text \<open>The scenario as the specification counts it, with a leaf layer of 13 nodes, does not hold.\<close>

theorem coverage_erase_44_not_13_leaves: "\<not> merged_layout 13"
  by code_simp

subsection \<open>The order of the rebalancing rules\<close>

text \<open>
  The array primitives on the layout of \<open>pad\<close>: reading, removing an element, inserting
  an element whose place among the keys is known, and the copy loops of \<open>merge\<close>.
\<close>

lemma somes_pad [simp]: "somes (pad n xs) = xs"
  by (induction xs) (simp_all add: somes_def pad_def)



lemma node_size_pad [simp]: "node_size (Node (pad n es) cs) = length es"
  unfolding pad_def by (rule node_size_packed)

lemma node_size_pack [simp]: "node_size (pack B cv) = length (fst cv)"
  by (simp add: pack_def)





















text \<open>
  A node whose arrays, and whose children's arrays, have their declared lengths and
  hold their elements first and null pointers after is the node that \<open>pack2\<close> builds
  from its view.
\<close>

lemma pad_somes: "contiguous xs \<Longrightarrow> length xs = n \<Longrightarrow> pad n (somes xs) = xs"
proof -
  assume c: "contiguous xs" and l: "length xs = n"
  obtain es m where xs: "xs = map Some es @ replicate m None" using c contiguous_pack by blast
  have "somes xs = es" using somes_pad [of "length xs" es] xs by (simp add: pad_def)
  then show ?thesis using xs l by (auto simp: pad_def)
qed

lemma pack_view:
  assumes "length (slots u) = 2 * B" and "contiguous (slots u)"
    and "length (children u) = 2 * B + 1" and "contiguous (children u)"
  shows "pack B (view u) = u"
  using assms by (cases u) (simp add: pack_def view_def pad_somes)

lemma pack2_view2:
  assumes "length (slots u) = 2 * B" and "contiguous (slots u)"
    and "length (children u) = 2 * B + 1" and "contiguous (children u)"
    and "\<forall>c\<in>set (somes (children u)). length (slots c) = 2 * B \<and> contiguous (slots c)
            \<and> length (children c) = 2 * B + 1 \<and> contiguous (children c)"
  shows "pack2 B (view2 u) = u"
proof -
  have "map (pack B) (map view (somes (children u))) = somes (children u)"
    using assms(5) by (simp add: map_idI pack_view)
  then show ?thesis
    using assms(1-4) by (cases u) (simp add: pack2_def view2_def pad_somes)
qed




text \<open>
  The coverage test expects the borrow from the left sibling: before its \<open>erase(45)\<close> the
  leaf \<open>{41, 45}\<close> stands between \<open>{36,37,38,39}\<close> and \<open>{47,48,49,50}\<close>, both with more
  than \<open>B = 3\<close> keys, and the layout it asserts afterwards (\<open>expected_keys_3\<close>) has 39
  moved up from the left sibling.
\<close>

lemma coverage_erase_45_borrows_from_left:
  "map_option (\<lambda>t. map (map (map fst)) (btree_bfs 3 t))
     (run 3 (coverage_inserts @ map Erase [44, 19, 42, 43]) (btree_new 3))
   = Some [[[15, 31]],
           [[2, 5, 10], [21, 25], [35, 40, 46]],
           [[0, 1], [3, 4], [6, 7, 8, 9], [11, 12, 13, 14], [16, 17, 18, 20],
            [22, 23, 24], [26, 27, 28, 29, 30], [32, 33, 34], [36, 37, 38, 39],
            [41, 45], [47, 48, 49, 50]]]
   \<and> map_option (\<lambda>t. map (map (map fst)) (btree_bfs 3 t))
        (run 3 (coverage_inserts @ map Erase [44, 19, 42, 43, 45]) (btree_new 3))
     = Some [[[15, 31]],
             [[2, 5, 10], [21, 25], [35, 39, 46]],
             [[0, 1], [3, 4], [6, 7, 8, 9], [11, 12, 13, 14], [16, 17, 18, 20],
              [22, 23, 24], [26, 27, 28, 29, 30], [32, 33, 34], [36, 37, 38],
              [40, 41], [47, 48, 49, 50]]]"
  by code_simp

text \<open>
  Apart from that case the two orders agree: when the two borrow rules do not both
  apply, rebalancing in the order of the specification takes the same step.
\<close>

lemma spec_orders_agree:
  assumes "\<not> (spec_applicable B pv i Borrow_left \<and> spec_applicable B pv i Borrow_right)"
  shows "spec_rebalance spec_order B pv i = spec_rebalance source_order B pv i"
proof -
  have "find (spec_applicable B pv i) spec_order = find (spec_applicable B pv i) source_order"
    using assms by (auto simp: spec_order_def source_order_def)
  then show ?thesis by (simp only: spec_rebalance_def)
qed

subsection \<open>Erasing and the lookup\<close>

text \<open>
  \<open>erase_recursive\<close> searches as \<open>find_recursive\<close> does. On every tree, a key that the
  lookup does not find is not erased: the result is empty and no node changes (the
  public \<open>erase\<close> then still replaces a root without keys by its first child). A key
  that the lookup finds with value \<open>v\<close> is erased with the result \<open>v\<close>, when the call
  returns.
\<close>

lemma at_update_same: "at cs i = Some c \<Longrightarrow> cs[i := Some c] = cs"
  by (metis at_def list_update_id option.distinct(1))

lemma erase_recursive_absent:
  "find_recursive B k u = None \<Longrightarrow> erase_recursive B k u = Some (None, u)"
proof (induction B k u rule: erase_recursive.induct)
  case (1 B k ks cs)
  let ?i = "find_it ks (2 * B - 1) k"
  show ?case
  proof (cases "?i < 0")
    case True
    then obtain v0 where "at ks (nat (- (?i + 1))) = Some (k, v0)"
      using find_it_found by blast
    then have "find_recursive B k (Node ks cs) = Some v0" using True by (simp add: Let_def)
    then show ?thesis using "1.prems" by simp
  next
    case False
    show ?thesis
    proof (cases "at cs (nat ?i)")
      case None
      then show ?thesis using False by (simp add: Let_def)
    next
      case (Some c)
      then have "find_recursive B k c = None"
        using "1.prems" False by (simp add: Let_def)
      then have "erase_recursive B k c = Some (None, c)"
        using "1.IH" [OF refl False Some] by simp
      then show ?thesis
        using False Some at_update_same [OF Some] by (simp add: Let_def)
    qed
  qed
qed

lemma erase_recursive_present:
  "find_recursive B k u = Some v \<Longrightarrow> erase_recursive B k u = Some (r, u') \<Longrightarrow> r = Some v"
proof (induction B k u arbitrary: r u' rule: erase_recursive.induct)
  case (1 B k ks cs)
  let ?i = "find_it ks (2 * B - 1) k"
  show ?case
  proof (cases "?i < 0")
    case True
    then have f: "map_option snd (at ks (nat (- (?i + 1)))) = Some v"
      using "1.prems"(1) by (simp add: Let_def)
    define idx where "idx = nat (- (?i + 1))"
    define u1 where "u1 = snd (node_remove idx (Node ks cs))"
    have nr: "node_remove idx (Node ks cs) = (at ks idx, u1)"
      by (simp add: u1_def node_remove_def)
    have ret: "map_option snd (at ks idx) = Some v" using f by (simp add: idx_def)
    have "erase_recursive B k (Node ks cs) =
       (case node_remove idx (Node ks cs) of
          (e, u1) \<Rightarrow>
            if \<not> is_leaf u1 then
              (case at (children u1) (idx + 1) of
                 None \<Rightarrow> None
               | Some c \<Rightarrow>
                   do {
                     (borrow, c') \<leftarrow> remove_smallest B c;
                     u2 \<leftarrow> insert_element borrow
                             (Node (slots u1) ((children u1)[idx + 1 := Some c']));
                     u3 \<leftarrow> check_child_underflow B u2 (idx + 1);
                     Some (map_option snd e, u3)
                   })
            else Some (map_option snd e, u1))"
      unfolding idx_def using True by (simp only: erase_recursive.simps Let_def if_True)
    then have er: "erase_recursive B k (Node ks cs) =
       (if \<not> is_leaf u1 then
          (case at (children u1) (idx + 1) of
             None \<Rightarrow> None
           | Some c \<Rightarrow>
               do {
                 (borrow, c') \<leftarrow> remove_smallest B c;
                 u2 \<leftarrow> insert_element borrow (Node (slots u1) ((children u1)[idx + 1 := Some c']));
                 u3 \<leftarrow> check_child_underflow B u2 (idx + 1);
                 Some (Some v, u3)
               })
        else Some (Some v, u1))"
      by (simp only: nr prod.case ret)
    show ?thesis
    proof (cases "is_leaf u1")
      case True
      then show ?thesis using "1.prems"(2) er by simp
    next
      case False
      then show ?thesis
        using "1.prems"(2) er
        by (auto split: option.splits Option.bind_splits)
    qed
  next
    case False
    show ?thesis
    proof (cases "at cs (nat ?i)")
      case None
      then show ?thesis using False "1.prems"(1) by (simp add: Let_def)
    next
      case (Some c)
      then have fc: "find_recursive B k c = Some v"
        using "1.prems"(1) False by (simp add: Let_def)
      show ?thesis
      proof (cases "erase_recursive B k c")
        case None
        then show ?thesis using "1.prems"(2) False Some by (simp add: Let_def)
      next
        case (Some rc)
        obtain r0 c' where rc: "rc = (r0, c')" by (cases rc)
        have "r0 = Some v"
          using "1.IH" [OF refl False \<open>at cs (nat ?i) = Some c\<close> fc] Some rc by simp
        then show ?thesis
          using "1.prems"(2) False \<open>at cs (nat ?i) = Some c\<close> Some rc
          by (auto simp: Let_def split: Option.bind_splits)
      qed
    qed
  qed
qed

lemma btree_erase_absent:
  "btree_find B k t = None \<Longrightarrow>
   btree_erase B k t
     = Some (None, if node_size t = 0 \<and> at (children t) 0 \<noteq> None then the (at (children t) 0) else t)"
  using erase_recursive_absent [of B k t] by (simp add: btree_find_def btree_erase_def)

lemma btree_erase_present:
  "btree_find B k t = Some v \<Longrightarrow> btree_erase B k t = Some (r, t') \<Longrightarrow> r = Some v"
  using erase_recursive_present [of B k t v]
  by (auto simp: btree_find_def btree_erase_def split: Option.bind_splits)

subsection \<open>Borrowing between internal nodes\<close>

text \<open>
  With \<open>B = 2\<close>, the keys 0, 10, ..., 110 are inserted in ascending order and 0 is
  erased. The erase merges two leaves, their parent is left without a key and
  borrows from its right sibling. \<open>borrow_from_right\<close> moves an element and no child
  pointer, so the leaf \<open>{40}\<close> stays under the sibling, left of all its keys, while the
  root's separator is now 50.
\<close>

text \<open>
  C4. The key 40 is absent until the fifth call inserts it with the value 41, and it
  is found from then on up to the erase of 0; it is never erased, and after the
  erase of 0 \<open>find(40)\<close> is empty.
\<close>

theorem find_empty_for_stored_key:
  "ascending_inserts ! 4 = Insert 40 41
   \<and> map_option (btree_find 2 40) (run 2 (take 4 ascending_inserts) (btree_new 2)) = Some None
   \<and> map_option (btree_find 2 40) (run 2 (take 5 ascending_inserts) (btree_new 2)) = Some (Some 41)
   \<and> map_option (btree_find 2 40) (run 2 ascending_inserts (btree_new 2)) = Some (Some 41)
   \<and> map_option (btree_find 2 40) (run 2 ascending_then_erase (btree_new 2)) = Some None"
  by code_simp

text \<open>
  C5. In the same state the element (40, 41) is in the in-order traversal, and
  \<open>erase(40)\<close> returns an empty result.
\<close>

theorem erase_empty_for_stored_key:
  "map_option (\<lambda>t. ((40, 41) \<in> set (btree_preorder t), map_option fst (btree_erase 2 40 t)))
     (run 2 ascending_then_erase (btree_new 2))
   = Some (True, Some None)"
  by code_simp

text \<open>C6. In the same state the in-order traversal is not ascending.\<close>

theorem preorder_not_ascending:
  "map_option (\<lambda>t. map fst (btree_preorder t)) (run 2 ascending_then_erase (btree_new 2))
     = Some [10, 20, 30, 50, 40, 70, 60, 90, 80, 100, 110]
   \<and> map_option strictly_ascending (run 2 ascending_then_erase (btree_new 2)) = Some False
   \<and> map_option strictly_ascending (run 2 ascending_inserts (btree_new 2)) = Some True"
  by code_simp

text \<open>
  C7. In the same state the first child of the root is an internal node with one key
  and one child, fewer than \<open>B = 2\<close> children. Its only leaf has no sibling to merge
  with or borrow from: after \<open>erase(10)\<close> and \<open>erase(20)\<close> it is a leaf with no key,
  fewer than \<open>B - 1 = 1\<close>.
\<close>

theorem occupancy_broken:
  "map_option (occupancy 2) (run 2 ascending_then_erase (btree_new 2)) = Some False
   \<and> map_option (\<lambda>t. map_option (\<lambda>c. (is_leaf c, node_size c, child_count c)) (at (children t) 0))
        (run 2 ascending_then_erase (btree_new 2))
     = Some (Some (False, 1, 1))
   \<and> map_option (occupancy 2) (run 2 ascending_inserts (btree_new 2)) = Some True
   \<and> map_option (\<lambda>t. map_option (\<lambda>c. map_option (\<lambda>d. (is_leaf d, node_size d)) (at (children c) 0))
                                      (at (children t) 0))
        (run 2 (ascending_then_erase @ [Erase 10, Erase 20]) (btree_new 2))
     = Some (Some (Some (True, 0)))"
  by code_simp

text \<open>
  C8. Three more insertions (31, 32, 33) split the node that lacks a child; one half
  has a null first child, so it counts as a leaf one level above the other leaves.
\<close>

theorem leaves_at_two_depths:
  "map_option balanced (run 2 unbalancing_script (btree_new 2)) = Some False
   \<and> map_option (\<lambda>t. leaf_depths t 0) (run 2 unbalancing_script (btree_new 2))
     = Some [2, 1, 2, 2, 2, 2]
   \<and> map_option (\<lambda>t. map (map (map fst)) (btree_bfs 2 t)) (run 2 unbalancing_script (btree_new 2))
     = Some [[[31, 50]], [[30], [32, 33], [70, 90]], [[10, 20], [40], [60], [80], [100, 110]]]"
  by code_simp

end
